theory Spec2Isabelle
  imports Complex_Main "HOL-Library.AList"
begin

section \<open>Strings and numbers of the host language\<close>

text \<open>
  Square identifiers, piece types and colours are JavaScript strings in \<^verbatim>\<open>main.js\<close>.
  They are modelled as \<^typ>\<open>string\<close> over ASCII: \<open>toUpperCase\<close> and \<open>toLowerCase\<close>
  change the 26 letters only, and \<open>trim\<close> removes the ASCII white space (tab, line feed,
  vertical tab, form feed, carriage return, space) at both ends.
\<close>

definition isWhiteSpace :: "char \<Rightarrow> bool" where
  "isWhiteSpace c = (c = CHR 0x09 \<or> c = CHR 0x0A \<or> c = CHR 0x0B \<or> c = CHR 0x0C
     \<or> c = CHR 0x0D \<or> c = CHR '' '')"

definition trim :: "string \<Rightarrow> string" where
  "trim s = rev (dropWhile isWhiteSpace (rev (dropWhile isWhiteSpace s)))"

definition upperChar :: "char \<Rightarrow> char" where
  "upperChar c =
    (case map_of (zip ''abcdefghijklmnopqrstuvwxyz'' ''ABCDEFGHIJKLMNOPQRSTUVWXYZ'') c of
       None \<Rightarrow> c
     | Some u \<Rightarrow> u)"

definition lowerChar :: "char \<Rightarrow> char" where
  "lowerChar c =
    (case map_of (zip ''ABCDEFGHIJKLMNOPQRSTUVWXYZ'' ''abcdefghijklmnopqrstuvwxyz'') c of
       None \<Rightarrow> c
     | Some l \<Rightarrow> l)"

definition toUpperCase :: "string \<Rightarrow> string" where
  "toUpperCase s = map upperChar s"

definition toLowerCase :: "string \<Rightarrow> string" where
  "toLowerCase s = map lowerChar s"

definition isDigit :: "char \<Rightarrow> bool" where
  "isDigit c = (c \<in> set ''0123456789'')"

definition digitVal :: "char \<Rightarrow> nat" where
  "digitVal c =
    (case map_of (zip ''0123456789'' [0, 1, 2, 3, 4, 5, 6, 7, 8, 9]) c of
       None \<Rightarrow> 0
     | Some d \<Rightarrow> d)"

text \<open>
  \<open>Number(text)\<close>, on the texts the coordinate system meets: white space around the
  literal is dropped, the empty literal is 0, and a run of decimal digits has its decimal
  value. \<open>None\<close> is \<open>NaN\<close>. The other spellings JavaScript reads as numbers (a sign, a
  fraction, an exponent, a radix prefix, \<open>Infinity\<close>) are outside this model of
  square texts and are read as \<open>NaN\<close> too.
\<close>

definition js_Number :: "string \<Rightarrow> int option" where
  "js_Number t = (let u = trim t in
     if u = [] then Some 0
     else if list_all isDigit u then Some (int (foldl (\<lambda>a c. 10 * a + digitVal c) 0 u))
     else None)"

text \<open>\<open>String(n)\<close> for an integer \<open>n\<close>: its decimal digits, with a minus sign below 0.\<close>

fun digitsOf :: "nat \<Rightarrow> string" where
  "digitsOf n = (if n < 10 then [''0123456789'' ! n]
     else digitsOf (n div 10) @ [''0123456789'' ! (n mod 10)])"

declare digitsOf.simps [simp del]

definition js_String :: "int \<Rightarrow> string" where
  "js_String n = (if n < 0 then CHR ''-'' # digitsOf (nat (- n)) else digitsOf (nat n))"

text \<open>\<open>arr.indexOf(x)\<close>: the first position of \<open>x\<close>, or \<open>-1\<close>.\<close>

fun indexOf :: "'a list \<Rightarrow> 'a \<Rightarrow> int" where
  "indexOf [] x = - 1"
| "indexOf (y # ys) x = (if y = x then 0 else
     (let i = indexOf ys x in if i < 0 then - 1 else i + 1))"

section \<open>Coordinate system\<close>

text \<open>
  The globals \<open>FILES\<close> and \<open>RANKS\<close>, set by \<open>setBoardSize\<close> from the table
  \<open>BOARD_SIZES\<close>, are passed explicitly as a \<open>config\<close>. \<open>BOARD_SIZES[size]\<close> is
  \<open>undefined\<close> for every key but 4 and 5, and \<open>setBoardSize\<close> then raises a TypeError:
  that is \<open>None\<close>.
\<close>

record config =
  FILES :: "string list"
  RANKS :: "int list"

definition BOARD_SIZES :: "int \<Rightarrow> config option" where
  "BOARD_SIZES sz =
    (if sz = 4 then Some \<lparr>FILES = [''A'', ''B'', ''C'', ''D''], RANKS = [1, 2, 3, 4]\<rparr>
     else if sz = 5 then
       Some \<lparr>FILES = [''A'', ''B'', ''C'', ''D'', ''E''], RANKS = [1, 2, 3, 4, 5]\<rparr>
     else None)"

definition setBoardSize :: "int \<Rightarrow> config option" where
  "setBoardSize sz = BOARD_SIZES sz"

text \<open>The configuration the script starts with (\<open>FILES = BOARD_SIZES[4].FILES\<close>).\<close>

definition initialConfig :: config where
  "initialConfig = \<lparr>FILES = [''A'', ''B'', ''C'', ''D''], RANKS = [1, 2, 3, 4]\<rparr>"

record parsed =
  fileLetter :: string
  rank :: int
  fileIndex :: int

definition parseSquare :: "config \<Rightarrow> string \<Rightarrow> parsed option" where
  "parseSquare cfg square =
    (let s = toUpperCase (trim square) in
     if length s < 2 then None
     else
       let fl = take 1 s; num = js_Number (drop 1 s) in
       if fl \<notin> set (FILES cfg) then None
       else case num of
         None \<Rightarrow> None
       | Some rk \<Rightarrow>
           if rk \<notin> set (RANKS cfg) then None
           else Some \<lparr>fileLetter = fl, rank = rk, fileIndex = indexOf (FILES cfg) fl\<rparr>)"

definition toSquare :: "config \<Rightarrow> int \<Rightarrow> int \<Rightarrow> string option" where
  "toSquare cfg fi rk =
    (if fi < 0 \<or> fi \<ge> int (length (FILES cfg)) then None
     else if rk \<notin> set (RANKS cfg) then None
     else Some (FILES cfg ! nat fi @ js_String rk))"

definition squaresAreAdjacent :: "config \<Rightarrow> string \<Rightarrow> string \<Rightarrow> bool" where
  "squaresAreAdjacent cfg a b =
    (case parseSquare cfg a of
       None \<Rightarrow> False
     | Some sa \<Rightarrow>
        (case parseSquare cfg b of
           None \<Rightarrow> False
         | Some sb \<Rightarrow>
            (let df = \<bar>fileIndex sa - fileIndex sb\<bar>; dr = \<bar>rank sa - rank sb\<bar>
             in max df dr = 1)))"

text \<open>
  \<open>allSquares\<close>: both loops run to the literal 4 (\<open>r <= 4\<close>, \<open>fi < 4\<close>), whatever the
  configured size; \<open>FILES[fi]\<close> is within range for both tables.
\<close>

definition allSquares :: "config \<Rightarrow> string list" where
  "allSquares cfg =
    concat (map (\<lambda>r. map (\<lambda>fi. FILES cfg ! fi @ js_String r) [0 ..< 4]) [1 .. 4])"

text \<open>The round trip of one pair of coordinates through \<open>toSquare\<close> and \<open>parseSquare\<close>.\<close>

definition roundTrips :: "config \<Rightarrow> int \<Rightarrow> int \<Rightarrow> bool" where
  "roundTrips cfg fi r =
    (case toSquare cfg fi r of
       None \<Rightarrow> False
     | Some t \<Rightarrow>
        (case parseSquare cfg t of
           None \<Rightarrow> False
         | Some s \<Rightarrow> fileIndex s = fi \<and> rank s = r \<and> fileLetter s = FILES cfg ! nat fi))"

section \<open>Pieces and boards\<close>

text \<open>
  A piece is an object with the fields \<open>type\<close> and \<open>color\<close>, both strings. A board is
  a JavaScript \<open>Map\<close> from square text to piece: its entries are kept in insertion
  order, \<open>set\<close> on a present key replaces the value in place, \<open>set\<close> on a new key
  appends, \<open>delete\<close> removes the entry. That is an association list with the
  operations of the library theory \<open>AList\<close>; the keys of a \<open>Map\<close> are distinct.
\<close>

record piece =
  ptype :: string
  color :: string

type_synonym board = "(string \<times> piece) list"

definition createEmptyBoard :: board where
  "createEmptyBoard = []"

definition Map_get :: "board \<Rightarrow> string \<Rightarrow> piece option" where
  "Map_get b sq = map_of b sq"

definition Map_set :: "board \<Rightarrow> string \<Rightarrow> piece \<Rightarrow> board" where
  "Map_set b sq p = AList.update sq p b"

definition Map_delete :: "board \<Rightarrow> string \<Rightarrow> board" where
  "Map_delete b sq = AList.delete sq b"

definition cloneBoard :: "board \<Rightarrow> board" where
  "cloneBoard b = map (\<lambda>(sq, p). (sq, \<lparr>ptype = ptype p, color = color p\<rparr>)) b"

definition pieceName :: "string \<Rightarrow> string" where
  "pieceName ty =
    (let t = toLowerCase ty in
     if t = ''k'' \<or> t = ''king'' then ''king''
     else if t = ''q'' \<or> t = ''queen'' then ''queen''
     else if t = ''r'' \<or> t = ''rook'' then ''rook''
     else if t = ''b'' \<or> t = ''bishop'' then ''bishop''
     else if t = ''n'' \<or> t = ''knight'' then ''knight''
     else t)"

definition normalizePieceType :: "string \<Rightarrow> string" where
  "normalizePieceType ty =
    (let t = pieceName ty in
     if t = ''king'' then ''k''
     else if t = ''queen'' then ''q''
     else if t = ''rook'' then ''r''
     else if t = ''bishop'' then ''b''
     else if t = ''knight'' then ''n''
     else t)"

definition normalizeColor :: "string \<Rightarrow> string" where
  "normalizeColor col =
    (let c = toLowerCase (trim col) in
     if c = ''w'' \<or> c = ''white'' then ''w''
     else if c = ''b'' \<or> c = ''black'' then ''b''
     else c)"

definition oppositeColor :: "string \<Rightarrow> string" where
  "oppositeColor col =
    (let c = normalizeColor col in
     if c = ''w'' then ''b'' else if c = ''b'' then ''w'' else c)"

section \<open>Outcomes of a call\<close>

text \<open>
  A call returns a value (\<open>Inr\<close>), raises a TypeError (reading a field of
  \<open>undefined\<close>), or never returns (\<open>Diverges\<close>: a ray loop whose step is zero on an
  empty square repeats the same state for ever). \<open>UndefinedKey\<close> stands for a run of
  the position generator in which \<open>pickRandom\<close> yields \<open>undefined\<close> (an index outside
  the array) and the generator goes on with \<open>undefined\<close> as a key of the board; boards
  with such a key are not modelled.
\<close>

datatype failure = TypeError | Diverges | UndefinedKey

definition andThen :: "failure + 'a \<Rightarrow> ('a \<Rightarrow> failure + 'b) \<Rightarrow> failure + 'b" where
  "andThen m f = (case m of Inl e \<Rightarrow> Inl e | Inr x \<Rightarrow> f x)"

section \<open>The engine: class \<open>ChessGame\<close>\<close>

text \<open>\<open>findKingSquare\<close>: the key of the first entry that is a king of the colour.\<close>

fun firstKing :: "board \<Rightarrow> string \<Rightarrow> string option" where
  "firstKing [] c = None"
| "firstKing ((sq, p) # es) c =
    (if ptype p = ''k'' \<and> color p = c then Some sq else firstKing es c)"

definition findKingSquare :: "board \<Rightarrow> string \<Rightarrow> string option" where
  "findKingSquare b col = firstKing b (normalizeColor col)"

text \<open>
  \<open>kingsAreSeparated\<close>: the loop runs over all entries and keeps the last king of each
  colour; \<open>!wk\<close> is true for \<open>null\<close> and for the empty text.
\<close>

fun lastKing :: "board \<Rightarrow> string \<Rightarrow> string option \<Rightarrow> string option" where
  "lastKing [] c acc = acc"
| "lastKing ((sq, p) # es) c acc =
    lastKing es c (if ptype p = ''k'' \<and> color p = c then Some sq else acc)"

definition kingsAreSeparated :: "config \<Rightarrow> board \<Rightarrow> bool" where
  "kingsAreSeparated cfg b =
    (case lastKing b ''w'' None of
       None \<Rightarrow> False
     | Some wk \<Rightarrow>
        (case lastKing b ''b'' None of
           None \<Rightarrow> False
         | Some bk \<Rightarrow>
            if wk = [] \<or> bk = [] then False
            else \<not> squaresAreAdjacent cfg wk bk))"

text \<open>
  \<open>applyMove\<close>. When \<open>from\<close> holds no piece, \<open>next.get(from)\<close> is \<open>undefined\<close> and the
  result maps \<open>to\<close> to \<open>undefined\<close>: no board of pieces, \<open>None\<close> here. Every loop over
  the entries of such a result raises a TypeError at \<open>p.type\<close> or \<open>p.color\<close>.
\<close>

definition applyMove :: "board \<Rightarrow> string \<Rightarrow> string \<Rightarrow> board option" where
  "applyMove b from to =
    (let next = cloneBoard b in
     case Map_get next from of
       None \<Rightarrow> None
     | Some p \<Rightarrow> Some (Map_set (Map_delete next from) to p))"

text \<open>
  The number of steps a walk from an in-board square can still take in a direction that
  is not zero; it bounds the ray loops.
\<close>

definition stepsToEdge :: "config \<Rightarrow> int \<Rightarrow> int \<Rightarrow> int \<Rightarrow> int \<Rightarrow> nat" where
  "stepsToEdge cfg fi r df dr =
    (if df > 0 then nat (int (length (FILES cfg)) - fi)
     else if df < 0 then nat (fi + 1)
     else if dr > 0 then nat (Max (set (RANKS cfg)) + 1 - r)
     else nat (r + 1 - Min (set (RANKS cfg))))"

text \<open>
  The loop of \<open>rayAttacks\<close>, from the square \<open>(fi, r)\<close>: the square is pushed before the
  occupancy test, so the first occupied square is part of the result whatever its colour.
  The loop \<open>while (true)\<close> ends at the edge of the board or at an occupied square; with
  the step \<open>(0, 0)\<close> on an empty square of the board neither ever happens. The methods
  of the class call it with the eight literal directions only.
\<close>

function rayAttacksLoop ::
  "config \<Rightarrow> board \<Rightarrow> int \<Rightarrow> int \<Rightarrow> int \<Rightarrow> int \<Rightarrow> failure + string list" where
  "rayAttacksLoop cfg board fi r df dr =
    (case toSquare cfg fi r of
       None \<Rightarrow> Inr []
     | Some sq \<Rightarrow>
        (case Map_get board sq of
           Some occupying \<Rightarrow> Inr [sq]
         | None \<Rightarrow>
            if df = 0 \<and> dr = 0 then Inl Diverges
            else andThen (rayAttacksLoop cfg board (fi + df) (r + dr) df dr)
                   (\<lambda>out. Inr (sq # out))))"
  by pat_completeness auto
termination
proof (relation "measure (\<lambda>(cfg, board, fi, r, df, dr). stepsToEdge cfg fi r df dr)")
  show "wf (measure (\<lambda>(cfg, board, fi, r, df, dr). stepsToEdge cfg fi r df dr))"
    by simp
next
  fix cfg :: config and board :: board and fi r df dr :: int and sq :: string
  assume sq: "toSquare cfg fi r = Some sq" and nz: "\<not> (df = 0 \<and> dr = 0)"
  from sq have fi: "0 \<le> fi" "fi < int (length (FILES cfg))" and r: "r \<in> set (RANKS cfg)"
    by (auto simp: toSquare_def split: if_splits)
  from r have "r \<le> Max (set (RANKS cfg))" "Min (set (RANKS cfg)) \<le> r"
    by simp_all
  with fi nz have "stepsToEdge cfg (fi + df) (r + dr) df dr < stepsToEdge cfg fi r df dr"
    by (auto simp: stepsToEdge_def)
  then show "((cfg, board, fi + df, r + dr, df, dr), (cfg, board, fi, r, df, dr))
      \<in> measure (\<lambda>(cfg, board, fi, r, df, dr). stepsToEdge cfg fi r df dr)"
    by simp
qed

declare rayAttacksLoop.simps [simp del]

definition rayAttacks ::
  "config \<Rightarrow> string \<Rightarrow> int \<Rightarrow> int \<Rightarrow> board \<Rightarrow> string \<Rightarrow> failure + string list" where
  "rayAttacks cfg from df dr board attackerColor =
    (case parseSquare cfg from of
       None \<Rightarrow> Inr []
     | Some s \<Rightarrow> rayAttacksLoop cfg board (fileIndex s + df) (rank s + dr) df dr)"

definition optionList :: "'a option \<Rightarrow> 'a list" where
  "optionList v = (case v of None \<Rightarrow> [] | Some x \<Rightarrow> [x])"

definition knightTargets :: "config \<Rightarrow> string \<Rightarrow> string list" where
  "knightTargets cfg from =
    (case parseSquare cfg from of
       None \<Rightarrow> []
     | Some s \<Rightarrow>
        concat (map (\<lambda>(df, dr). optionList (toSquare cfg (fileIndex s + df) (rank s + dr)))
          [(1, 2), (2, 1), (- 1, 2), (- 2, 1), (1, - 2), (2, - 1), (- 1, - 2), (- 2, - 1)]))"

definition kingTargets :: "config \<Rightarrow> string \<Rightarrow> string list" where
  "kingTargets cfg from =
    (case parseSquare cfg from of
       None \<Rightarrow> []
     | Some s \<Rightarrow>
        concat (map (\<lambda>df. concat (map (\<lambda>dr.
            if df = 0 \<and> dr = 0 then []
            else optionList (toSquare cfg (fileIndex s + df) (rank s + dr)))
          [- 1, 0, 1])) [- 1, 0, 1]))"

text \<open>
  \<open>addIfOk\<close> of \<open>pseudoMovesForPiece\<close>: the squares it pushes onto \<open>moves\<close> (none or
  one), and its return value.
\<close>

definition addIfOk :: "board \<Rightarrow> string \<Rightarrow> string \<Rightarrow> string list \<times> bool" where
  "addIfOk board c sq =
    (case Map_get board sq of
       None \<Rightarrow> ([sq], True)
     | Some occ \<Rightarrow> if color occ \<noteq> c then ([sq], False) else ([], False))"

text \<open>The loop of the closure \<open>ray\<close>, from the square \<open>(fi, r)\<close>: the squares it pushes.\<close>

function rayLoop ::
  "config \<Rightarrow> board \<Rightarrow> string \<Rightarrow> int \<Rightarrow> int \<Rightarrow> int \<Rightarrow> int \<Rightarrow> failure + string list" where
  "rayLoop cfg board c fi r df dr =
    (case toSquare cfg fi r of
       None \<Rightarrow> Inr []
     | Some sq \<Rightarrow>
        if \<not> snd (addIfOk board c sq) then Inr (fst (addIfOk board c sq))
        else if df = 0 \<and> dr = 0 then Inl Diverges
        else andThen (rayLoop cfg board c (fi + df) (r + dr) df dr)
               (\<lambda>rest. Inr (fst (addIfOk board c sq) @ rest)))"
  by pat_completeness auto
termination
proof (relation "measure (\<lambda>(cfg, board, c, fi, r, df, dr). stepsToEdge cfg fi r df dr)")
  show "wf (measure (\<lambda>(cfg, board, c, fi, r, df, dr). stepsToEdge cfg fi r df dr))"
    by simp
next
  fix cfg :: config and board :: board and c :: string and fi r df dr :: int and sq :: string
  assume sq: "toSquare cfg fi r = Some sq" and nz: "\<not> (df = 0 \<and> dr = 0)"
  from sq have fi: "0 \<le> fi" "fi < int (length (FILES cfg))" and r: "r \<in> set (RANKS cfg)"
    by (auto simp: toSquare_def split: if_splits)
  from r have "r \<le> Max (set (RANKS cfg))" "Min (set (RANKS cfg)) \<le> r"
    by simp_all
  with fi nz have "stepsToEdge cfg (fi + df) (r + dr) df dr < stepsToEdge cfg fi r df dr"
    by (auto simp: stepsToEdge_def)
  then show "((cfg, board, c, fi + df, r + dr, df, dr), (cfg, board, c, fi, r, df, dr))
      \<in> measure (\<lambda>(cfg, board, c, fi, r, df, dr). stepsToEdge cfg fi r df dr)"
    by simp
qed

declare rayLoop.simps [simp del]

definition ray ::
  "config \<Rightarrow> board \<Rightarrow> string \<Rightarrow> string \<Rightarrow> int \<Rightarrow> int \<Rightarrow> failure + string list" where
  "ray cfg board c from df dr =
    (case parseSquare cfg from of
       None \<Rightarrow> Inr []
     | Some s \<Rightarrow> rayLoop cfg board c (fileIndex s + df) (rank s + dr) df dr)"

text \<open>Consecutive calls of \<open>ray\<close>: their pushes follow one another in \<open>moves\<close>.\<close>

fun rays ::
  "config \<Rightarrow> board \<Rightarrow> string \<Rightarrow> string \<Rightarrow> (int \<times> int) list \<Rightarrow> failure + string list" where
  "rays cfg board c from [] = Inr []"
| "rays cfg board c from ((df, dr) # ds) =
    andThen (ray cfg board c from df dr)
      (\<lambda>a. andThen (rays cfg board c from ds) (\<lambda>b. Inr (a @ b)))"

definition pseudoMovesForPiece ::
  "config \<Rightarrow> piece \<Rightarrow> string \<Rightarrow> board \<Rightarrow> failure + string list" where
  "pseudoMovesForPiece cfg piece from board =
    (let t = normalizePieceType (ptype piece); c = normalizeColor (color piece) in
     if t = ''k'' then Inr (concat (map (\<lambda>sq. fst (addIfOk board c sq)) (kingTargets cfg from)))
     else if t = ''n'' then
       Inr (concat (map (\<lambda>sq. fst (addIfOk board c sq)) (knightTargets cfg from)))
     else
       andThen (if t = ''r'' \<or> t = ''q''
                then rays cfg board c from [(1, 0), (- 1, 0), (0, 1), (0, - 1)] else Inr [])
         (\<lambda>straight.
            andThen (if t = ''b'' \<or> t = ''q''
                     then rays cfg board c from [(1, 1), (- 1, 1), (1, - 1), (- 1, - 1)]
                     else Inr [])
              (\<lambda>diagonal. Inr (straight @ diagonal))))"

text \<open>The spread of consecutive \<open>rayAttacks\<close> results into one array.\<close>

fun rayAttacksAll ::
  "config \<Rightarrow> string \<Rightarrow> (int \<times> int) list \<Rightarrow> board \<Rightarrow> string \<Rightarrow> failure + string list" where
  "rayAttacksAll cfg square [] board col = Inr []"
| "rayAttacksAll cfg square ((df, dr) # ds) board col =
    andThen (rayAttacks cfg square df dr board col)
      (\<lambda>a. andThen (rayAttacksAll cfg square ds board col) (\<lambda>b. Inr (a @ b)))"

function attacksFromSquare ::
  "config \<Rightarrow> string \<Rightarrow> piece \<Rightarrow> board \<Rightarrow> failure + string list" where
  "attacksFromSquare cfg square piece board =
    (let t = normalizePieceType (ptype piece) in
     if t = ''k'' then Inr (kingTargets cfg square)
     else if t = ''n'' then Inr (knightTargets cfg square)
     else if t = ''r'' then
       rayAttacksAll cfg square [(1, 0), (- 1, 0), (0, 1), (0, - 1)] board (color piece)
     else if t = ''b'' then
       rayAttacksAll cfg square [(1, 1), (- 1, 1), (1, - 1), (- 1, - 1)] board (color piece)
     else if t = ''q'' then
       andThen (attacksFromSquare cfg square (piece\<lparr>ptype := ''r''\<rparr>) board)
         (\<lambda>a. andThen (attacksFromSquare cfg square (piece\<lparr>ptype := ''b''\<rparr>) board)
            (\<lambda>b. Inr (a @ b)))
     else Inr [])"
  by pat_completeness auto
termination
  by (relation "measure (\<lambda>(cfg, square, piece, board).
        if normalizePieceType (ptype piece) = ''q'' then 1 else 0)")
     (auto simp: normalizePieceType_def pieceName_def toLowerCase_def lowerChar_def)

declare attacksFromSquare.simps [simp del]

text \<open>The loop of \<open>isSquareAttacked\<close> over the entries, with its early return.\<close>

fun attackedBy ::
  "config \<Rightarrow> string \<Rightarrow> string \<Rightarrow> board \<Rightarrow> board \<Rightarrow> failure + bool" where
  "attackedBy cfg square attacker board [] = Inr False"
| "attackedBy cfg square attacker board ((sq, p) # es) =
    (if color p \<noteq> attacker then attackedBy cfg square attacker board es
     else andThen (attacksFromSquare cfg sq p board)
       (\<lambda>targets. if square \<in> set targets then Inr True
                   else attackedBy cfg square attacker board es))"

definition isSquareAttacked :: "config \<Rightarrow> string \<Rightarrow> string \<Rightarrow> board \<Rightarrow> failure + bool" where
  "isSquareAttacked cfg square byColor board =
    attackedBy cfg square (normalizeColor byColor) board board"

definition isCheck :: "config \<Rightarrow> string \<Rightarrow> board \<Rightarrow> failure + bool" where
  "isCheck cfg col board =
    (let c = normalizeColor col in
     case firstKing board c of
       None \<Rightarrow> Inr False
     | Some kingSq \<Rightarrow>
         if kingSq = [] then Inr False
         else isSquareAttacked cfg kingSq (oppositeColor c) board)"

text \<open>
  The loop of \<open>getLegalMoves\<close> over the candidates. \<open>p\<close> is the normalised copy of the
  piece. On a simulated board that holds \<open>undefined\<close>, \<open>kingsAreSeparated\<close> raises.
\<close>

fun legalAmong ::
  "config \<Rightarrow> piece \<Rightarrow> string \<Rightarrow> board \<Rightarrow> string list \<Rightarrow> failure + string list" where
  "legalAmong cfg p from board [] = Inr []"
| "legalAmong cfg p from board (to # candidate) =
    (case applyMove board from to of
       None \<Rightarrow> Inl TypeError
     | Some nextBoard \<Rightarrow>
        if \<not> kingsAreSeparated cfg nextBoard then legalAmong cfg p from board candidate
        else andThen (isCheck cfg (color p) nextBoard)
          (\<lambda>check.
             if check then legalAmong cfg p from board candidate
             else andThen (if ptype p = ''k''
                           then isSquareAttacked cfg to (oppositeColor (color p)) nextBoard
                           else Inr False)
               (\<lambda>attacked.
                  if attacked then legalAmong cfg p from board candidate
                  else andThen (legalAmong cfg p from board candidate)
                         (\<lambda>legal. Inr (to # legal)))))"

definition getLegalMoves :: "config \<Rightarrow> piece \<Rightarrow> string \<Rightarrow> board \<Rightarrow> failure + string list" where
  "getLegalMoves cfg piece from board =
    (let p = \<lparr>ptype = normalizePieceType (ptype piece), color = normalizeColor (color piece)\<rparr>
     in andThen (pseudoMovesForPiece cfg p from board)
          (\<lambda>candidate. legalAmong cfg p from board candidate))"

text \<open>The loop of \<open>allLegalMoves\<close>; an entry of the result is \<open>{from, to, piece}\<close>.\<close>

fun movesOfEntries ::
  "config \<Rightarrow> string \<Rightarrow> board \<Rightarrow> board \<Rightarrow> failure + (string \<times> string \<times> piece) list" where
  "movesOfEntries cfg c board [] = Inr []"
| "movesOfEntries cfg c board ((sq, p) # es) =
    (if color p \<noteq> c then movesOfEntries cfg c board es
     else andThen (getLegalMoves cfg p sq board)
       (\<lambda>moves. andThen (movesOfEntries cfg c board es)
          (\<lambda>out. Inr (map (\<lambda>to. (sq, to, p)) moves @ out))))"

definition allLegalMoves ::
  "config \<Rightarrow> string \<Rightarrow> board \<Rightarrow> failure + (string \<times> string \<times> piece) list" where
  "allLegalMoves cfg col board = movesOfEntries cfg (normalizeColor col) board board"

definition isCheckmate :: "config \<Rightarrow> string \<Rightarrow> board \<Rightarrow> failure + bool" where
  "isCheckmate cfg col board =
    (let c = normalizeColor col in
     andThen (isCheck cfg c board)
       (\<lambda>check. if \<not> check then Inr False
                 else andThen (allLegalMoves cfg c board) (\<lambda>moves. Inr (length moves = 0))))"

definition isStalemate :: "config \<Rightarrow> string \<Rightarrow> board \<Rightarrow> failure + bool" where
  "isStalemate cfg col board =
    (let c = normalizeColor col in
     andThen (isCheck cfg c board)
       (\<lambda>check. if check then Inr False
                 else andThen (allLegalMoves cfg c board) (\<lambda>moves. Inr (length moves = 0))))"

section \<open>Notions used to state the properties\<close>

text \<open>
  A square a piece of colour \<open>c\<close> may land on: empty, or held by a piece whose colour
  differs from \<open>c\<close> (the test of \<open>addIfOk\<close>).
\<close>

definition landable :: "board \<Rightarrow> string \<Rightarrow> string \<Rightarrow> bool" where
  "landable board c sq = (case Map_get board sq of None \<Rightarrow> True | Some occ \<Rightarrow> color occ \<noteq> c)"

text \<open>
  The square \<open>k\<close> steps away from the parsed square \<open>s\<close> in the direction \<open>(df, dr)\<close>,
  if it is on the board.
\<close>

definition squareAt :: "config \<Rightarrow> parsed \<Rightarrow> int \<Rightarrow> int \<Rightarrow> nat \<Rightarrow> string option" where
  "squareAt cfg s df dr k = toSquare cfg (fileIndex s + int k * df) (rank s + int k * dr)"

text \<open>
  The sliding rule in words: \<open>q\<close> lies \<open>k \<ge> 1\<close> steps from \<open>s\<close>, every square strictly
  between is on the board and empty, and \<open>q\<close> itself is empty or holds an enemy piece.
\<close>

definition reaches ::
  "config \<Rightarrow> board \<Rightarrow> string \<Rightarrow> parsed \<Rightarrow> int \<Rightarrow> int \<Rightarrow> string \<Rightarrow> bool" where
  "reaches cfg board c s df dr q =
    (\<exists>k. 0 < k \<and> squareAt cfg s df dr k = Some q
       \<and> (\<forall>j. 0 < j \<and> j < k \<longrightarrow>
             (\<exists>sq. squareAt cfg s df dr j = Some sq \<and> Map_get board sq = None))
       \<and> landable board c q)"

text \<open>The directions \<open>pseudoMovesForPiece\<close> casts rays in, for a normalised piece type.\<close>

definition slideDirections :: "string \<Rightarrow> (int \<times> int) list" where
  "slideDirections t =
    (if t = ''r'' \<or> t = ''q'' then [(1, 0), (- 1, 0), (0, 1), (0, - 1)] else []) @
    (if t = ''b'' \<or> t = ''q'' then [(1, 1), (- 1, 1), (1, - 1), (- 1, - 1)] else [])"

text \<open>The same walk counted from the first square of the ray, as the loop sees it.\<close>

definition walk ::
  "config \<Rightarrow> board \<Rightarrow> string \<Rightarrow> int \<Rightarrow> int \<Rightarrow> int \<Rightarrow> int \<Rightarrow> nat \<Rightarrow> string \<Rightarrow> bool" where
  "walk cfg board c fi r df dr k q =
    (toSquare cfg (fi + int k * df) (r + int k * dr) = Some q
     \<and> (\<forall>j<k. \<exists>sq. toSquare cfg (fi + int j * df) (r + int j * dr) = Some sq
                   \<and> Map_get board sq = None)
     \<and> landable board c q)"

text \<open>
  What a ray cast from \<open>s\<close> in the direction \<open>(df, dr)\<close> meets, whatever stands there:
  \<open>q\<close> lies \<open>k \<ge> 1\<close> steps from \<open>s\<close> and every square strictly between is on the
  board and empty. The first occupied square of the ray is met, of either colour.
\<close>

definition sees :: "config \<Rightarrow> board \<Rightarrow> parsed \<Rightarrow> int \<Rightarrow> int \<Rightarrow> string \<Rightarrow> bool" where
  "sees cfg board s df dr q =
    (\<exists>k. 0 < k \<and> squareAt cfg s df dr k = Some q
       \<and> (\<forall>j. 0 < j \<and> j < k \<longrightarrow>
             (\<exists>sq. squareAt cfg s df dr j = Some sq \<and> Map_get board sq = None)))"

text \<open>The same ray counted from its first square, as the loop of \<open>rayAttacks\<close> walks it.\<close>

definition look ::
  "config \<Rightarrow> board \<Rightarrow> int \<Rightarrow> int \<Rightarrow> int \<Rightarrow> int \<Rightarrow> nat \<Rightarrow> string \<Rightarrow> bool" where
  "look cfg board fi r df dr k q =
    (toSquare cfg (fi + int k * df) (r + int k * dr) = Some q
     \<and> (\<forall>j<k. \<exists>sq. toSquare cfg (fi + int j * df) (r + int j * dr) = Some sq
                   \<and> Map_get board sq = None))"

section \<open>Position generator\<close>

text \<open>
  \<open>Math.random()\<close> yields a number in \<open>[0, 1)\<close>. The numbers of one run are taken from
  a source \<open>rnd\<close>, the call number \<open>i\<close> being passed along: the \<open>i\<close>-th number is the
  fractional part of \<open>rnd i\<close>. Numbers are rationals.
\<close>

definition Math_random :: "(nat \<Rightarrow> rat) \<Rightarrow> nat \<Rightarrow> rat" where
  "Math_random rnd i = frac (rnd i)"

definition randomInt :: "rat \<Rightarrow> nat \<Rightarrow> int" where
  "randomInt u maxExclusive = \<lfloor>u * of_nat maxExclusive\<rfloor>"

text \<open>\<open>arr[i]\<close> is \<open>undefined\<close> (\<open>None\<close>) for an index outside the array.\<close>

definition pickRandom :: "'a list \<Rightarrow> rat \<Rightarrow> 'a option" where
  "pickRandom arr u =
    (let i = randomInt u (length arr) in
     if 0 \<le> i \<and> i < int (length arr) then Some (arr ! nat i) else None)"

definition removeFromArray :: "'a list \<Rightarrow> 'a \<Rightarrow> 'a list" where
  "removeFromArray arr v = remove1 v arr"

text \<open>
  The loop over the user pieces. The result is the board (\<open>None\<close> when \<open>ok\<close> is false:
  the squares ran out) and the number of random numbers used so far.
\<close>

fun placePieces ::
  "piece list \<Rightarrow> board \<Rightarrow> string list \<Rightarrow> (nat \<Rightarrow> rat) \<Rightarrow> nat
     \<Rightarrow> failure + (board option \<times> nat)" where
  "placePieces [] board available rnd i = Inr (Some board, i)"
| "placePieces (up # ups) board available rnd i =
    (if length available = 0 then Inr (None, i)
     else case pickRandom available (Math_random rnd i) of
       None \<Rightarrow> Inl UndefinedKey
     | Some sq \<Rightarrow>
         placePieces ups
           (Map_set board sq
              \<lparr>ptype = normalizePieceType (ptype up), color = normalizeColor (color up)\<rparr>)
           (removeFromArray available sq) rnd (i + 1))"

text \<open>
  The checks at the end of a pass, on the board with all pieces placed: \<open>Some board\<close>
  when the pass returns the board, \<open>None\<close> when a check ends it in \<open>continue\<close>.
  \<open>j\<close> is the number of random numbers used.
\<close>

definition validated ::
  "config \<Rightarrow> string \<Rightarrow> bool \<Rightarrow> board \<Rightarrow> nat \<Rightarrow> failure + (board option \<times> nat)" where
  "validated cfg turn allowStartingCheck board j =
    (if \<not> kingsAreSeparated cfg board then Inr (None, j)
     else
       andThen (if allowStartingCheck then Inr False else isCheck cfg turn board)
         (\<lambda>check. if check then Inr (None, j) else
       andThen (if allowStartingCheck then Inr False
                else isCheck cfg (oppositeColor turn) board)
         (\<lambda>check. if check then Inr (None, j) else
       andThen (isCheckmate cfg ''w'' board)
         (\<lambda>mate. if mate then Inr (None, j) else
       andThen (isCheckmate cfg ''b'' board)
         (\<lambda>mate. if mate then Inr (None, j) else Inr (Some board, j))))))"

text \<open>One pass of the loop of \<open>generateStartingPosition\<close>.\<close>

definition attempt ::
  "config \<Rightarrow> piece list \<Rightarrow> string \<Rightarrow> bool \<Rightarrow> (nat \<Rightarrow> rat) \<Rightarrow> nat
     \<Rightarrow> failure + (board option \<times> nat)" where
  "attempt cfg pieces turn allowStartingCheck rnd i =
    (let available = allSquares cfg in
     case pickRandom available (Math_random rnd i) of
       None \<Rightarrow> Inl UndefinedKey
     | Some wkSq \<Rightarrow>
        (let available = removeFromArray available wkSq;
             nonAdjacentToWk = filter (\<lambda>sq. \<not> squaresAreAdjacent cfg wkSq sq) available
         in
         if length nonAdjacentToWk = 0 then Inr (None, i + 1)
         else case pickRandom nonAdjacentToWk (Math_random rnd (i + 1)) of
           None \<Rightarrow> Inl UndefinedKey
         | Some bkSq \<Rightarrow>
            (let available = removeFromArray available bkSq;
                 board = Map_set (Map_set createEmptyBoard wkSq \<lparr>ptype = ''k'', color = ''w''\<rparr>)
                           bkSq \<lparr>ptype = ''k'', color = ''b''\<rparr>
             in
             andThen (placePieces pieces board available rnd (i + 2))
               (\<lambda>(placed, j).
                  case placed of
                    None \<Rightarrow> Inr (None, j)
                  | Some board \<Rightarrow> validated cfg turn allowStartingCheck board j))))"

text \<open>
  The loop over the attempts, \<open>n\<close> of them left; after the last one the empty board is
  returned. \<open>maxAttempts\<close> is the number of passes \<open>attempt < maxAttempts\<close> allows, a
  natural number.
\<close>

fun attempts ::
  "config \<Rightarrow> piece list \<Rightarrow> string \<Rightarrow> bool \<Rightarrow> (nat \<Rightarrow> rat) \<Rightarrow> nat \<Rightarrow> nat
     \<Rightarrow> failure + board" where
  "attempts cfg pieces turn allowStartingCheck rnd 0 i = Inr createEmptyBoard"
| "attempts cfg pieces turn allowStartingCheck rnd (Suc n) i =
    andThen (attempt cfg pieces turn allowStartingCheck rnd i)
      (\<lambda>(result, j).
         case result of
           Some board \<Rightarrow> Inr board
         | None \<Rightarrow> attempts cfg pieces turn allowStartingCheck rnd n j)"

text \<open>
  \<open>generateStartingPosition(userPieces, {turn, maxAttempts, allowStartingCheck})\<close>;
  a missing \<open>turn\<close> is the empty text, and \<open>normalizeColor(options.turn) || "w"\<close> is
  \<open>requestedTurn\<close>. The result is the pair of board and turn.
\<close>

definition requestedTurn :: "string \<Rightarrow> string" where
  "requestedTurn optTurn =
    (let t = normalizeColor optTurn in if t = [] then ''w'' else t)"

definition generateStartingPosition ::
  "config \<Rightarrow> piece list \<Rightarrow> string \<Rightarrow> nat \<Rightarrow> bool \<Rightarrow> (nat \<Rightarrow> rat)
     \<Rightarrow> failure + (board \<times> string)" where
  "generateStartingPosition cfg userPieces optTurn maxAttempts allowStartingCheck rnd =
    (let turn = requestedTurn optTurn in
     andThen (attempts cfg userPieces turn allowStartingCheck rnd maxAttempts 0)
       (\<lambda>board. Inr (board, turn)))"

text \<open>
  All of the first \<open>n\<close> passes, from random number \<open>i\<close> on, end in \<open>continue\<close>: the
  attempt budget is used up without a position.
\<close>

fun exhausted ::
  "config \<Rightarrow> piece list \<Rightarrow> string \<Rightarrow> bool \<Rightarrow> (nat \<Rightarrow> rat) \<Rightarrow> nat \<Rightarrow> nat \<Rightarrow> bool" where
  "exhausted cfg pieces turn allowStartingCheck rnd 0 i = True"
| "exhausted cfg pieces turn allowStartingCheck rnd (Suc n) i =
    (case attempt cfg pieces turn allowStartingCheck rnd i of
       Inr (None, j) \<Rightarrow> exhausted cfg pieces turn allowStartingCheck rnd n j
     | Inr (Some board, j) \<Rightarrow> False
     | Inl e \<Rightarrow> False)"

text \<open>Some entry of the board is a king of the colour (the test of the king loops).\<close>

definition hasKing :: "board \<Rightarrow> string \<Rightarrow> bool" where
  "hasKing board c = list_ex (\<lambda>(sq, p). ptype p = ''k'' \<and> color p = c) board"

text \<open>The number of entries of the board that are a king of the colour.\<close>

definition isKingOf :: "string \<Rightarrow> string \<times> piece \<Rightarrow> bool" where
  "isKingOf c e = (ptype (snd e) = ''k'' \<and> color (snd e) = c)"

definition countKings :: "board \<Rightarrow> string \<Rightarrow> nat" where
  "countKings board c = length (filter (isKingOf c) board)"

section \<open>Boards as objects in a store\<close>

text \<open>
  \<open>cloneBoard\<close> builds a new \<open>Map\<close> and, for every entry, a new piece object
  (\<open>{ ...piece }\<close>); \<open>applyMove\<close> then changes the new \<open>Map\<close> only. To state what is
  shared, objects live in a store: piece objects and \<open>Map\<close> objects at references,
  a \<open>Map\<close> holding references to its pieces; \<open>fresh\<close> is the next unused reference.
\<close>

type_synonym ref = nat

record store =
  objects :: "ref \<Rightarrow> piece"
  tables :: "ref \<Rightarrow> (string \<times> ref) list"
  fresh :: ref

text \<open>\<open>new Map()\<close> and an object literal: the store grows by one object.\<close>

definition newMap :: "store \<Rightarrow> store \<times> ref" where
  "newMap h = (h\<lparr>tables := (tables h)(fresh h := []), fresh := Suc (fresh h)\<rparr>, fresh h)"

definition newObject :: "store \<Rightarrow> piece \<Rightarrow> store \<times> ref" where
  "newObject h v = (h\<lparr>objects := (objects h)(fresh h := v), fresh := Suc (fresh h)\<rparr>, fresh h)"

text \<open>\<open>m.set(sq, a)\<close> and \<open>m.delete(sq)\<close> on the \<open>Map\<close> at reference \<open>m\<close>.\<close>

definition tableSet :: "store \<Rightarrow> ref \<Rightarrow> string \<Rightarrow> ref \<Rightarrow> store" where
  "tableSet h m sq a = h\<lparr>tables := (tables h)(m := AList.update sq a (tables h m))\<rparr>"

definition tableDelete :: "store \<Rightarrow> ref \<Rightarrow> string \<Rightarrow> store" where
  "tableDelete h m sq = h\<lparr>tables := (tables h)(m := AList.delete sq (tables h m))\<rparr>"

text \<open>The loop of \<open>cloneBoard\<close>: \<open>next.set(sq, { ...piece })\<close> for every entry.\<close>

fun copyEntries :: "store \<Rightarrow> ref \<Rightarrow> (string \<times> ref) list \<Rightarrow> store" where
  "copyEntries h next [] = h"
| "copyEntries h next ((sq, a) # es) =
    (let (h1, obj) = newObject h \<lparr>ptype = ptype (objects h a), color = color (objects h a)\<rparr>
     in copyEntries (tableSet h1 next sq obj) next es)"

definition cloneBoardInStore :: "store \<Rightarrow> ref \<Rightarrow> store \<times> ref" where
  "cloneBoardInStore h board =
    (let (h0, next) = newMap h in (copyEntries h0 next (tables h board), next))"

text \<open>\<open>applyMove\<close> on the store; \<open>None\<close> as before, when \<open>from\<close> holds nothing.\<close>

definition applyMoveInStore ::
  "store \<Rightarrow> ref \<Rightarrow> string \<Rightarrow> string \<Rightarrow> (store \<times> ref) option" where
  "applyMoveInStore h board from to =
    (let (h1, next) = cloneBoardInStore h board in
     case map_of (tables h1 next) from of
       None \<Rightarrow> None
     | Some a \<Rightarrow> Some (tableSet (tableDelete h1 next from) next to a, next))"

text \<open>The board a \<open>Map\<close> of the store stands for: its entries with the pieces read.\<close>

definition piecesAt :: "store \<Rightarrow> (string \<times> ref) list \<Rightarrow> board" where
  "piecesAt h es = map (\<lambda>(sq, a). (sq, objects h a)) es"

definition boardOf :: "store \<Rightarrow> ref \<Rightarrow> board" where
  "boardOf h m = piecesAt h (tables h m)"

text \<open>The \<open>Map\<close> at \<open>m\<close> and the pieces it refers to exist in the store.\<close>

definition allocated :: "store \<Rightarrow> ref \<Rightarrow> bool" where
  "allocated h m = (m < fresh h \<and> list_all (\<lambda>(sq, a). a < fresh h) (tables h m))"

text \<open>A store with four pieces at 0 to 3 and one board at 4.\<close>

definition exampleStore :: store where
  "exampleStore =
    \<lparr>objects = (\<lambda>a. if a = 0 then \<lparr>ptype = ''r'', color = ''w''\<rparr>
        else if a = 1 then \<lparr>ptype = ''b'', color = ''b''\<rparr>
        else if a = 2 then \<lparr>ptype = ''k'', color = ''w''\<rparr>
        else \<lparr>ptype = ''k'', color = ''b''\<rparr>),
     tables = (\<lambda>m. if m = 4 then [(''A1'', 0), (''A3'', 1), (''D1'', 2), (''D4'', 3)] else []),
     fresh = 5\<rparr>"


section \<open>Coordinates: round trip and the candidate squares\<close>

text \<open>
  The round trip of the coordinate system is checked square by square, for both tables
  of \<open>BOARD_SIZES\<close>.
\<close>

lemma roundTrips_all:
  "list_all (\<lambda>n. case BOARD_SIZES n of None \<Rightarrow> False
      | Some cfg \<Rightarrow> list_all (\<lambda>fi. list_all (roundTrips cfg fi) (RANKS cfg))
           [0 .. int (length (FILES cfg)) - 1]) [4, 5]"
  by code_simp

text \<open>
  C8. For a configured board size and an in-bounds pair of file index and rank,
  \<open>toSquare\<close> yields a square text, and \<open>parseSquare\<close> of that text gives back the same
  file index and rank (and the file letter of that index).
\<close>

theorem parse_toSquare_roundtrip:
  assumes "BOARD_SIZES n = Some cfg" and "0 \<le> fi" and "fi < int (length (FILES cfg))"
    and "r \<in> set (RANKS cfg)"
  shows "\<exists>t. toSquare cfg fi r = Some t \<and>
    (\<exists>s. parseSquare cfg t = Some s \<and> fileIndex s = fi \<and> rank s = r
       \<and> fileLetter s = FILES cfg ! nat fi)"
proof -
  from assms(1) have n: "n = 4 \<or> n = 5"
    by (auto simp: BOARD_SIZES_def split: if_splits)
  from assms(2,3) have fi: "fi \<in> set [0 .. int (length (FILES cfg)) - 1]"
    by simp
  from n assms(1) roundTrips_all
  have "list_all (\<lambda>fi. list_all (roundTrips cfg fi) (RANKS cfg))
           [0 .. int (length (FILES cfg)) - 1]"
    by auto
  with fi assms(4) have "roundTrips cfg fi r"
    unfolding list_all_iff by blast
  then show ?thesis
    by (auto simp: roundTrips_def split: option.splits)
qed

theorem parse_toSquare_roundtrip_witness:
  "BOARD_SIZES 5 =
     Some \<lparr>FILES = [''A'', ''B'', ''C'', ''D'', ''E''], RANKS = [1, 2, 3, 4, 5]\<rparr> \<and>
   toSquare \<lparr>FILES = [''A'', ''B'', ''C'', ''D'', ''E''], RANKS = [1, 2, 3, 4, 5]\<rparr> 4 5
     = Some ''E5'' \<and>
   map_option (\<lambda>s. (fileIndex s, rank s))
     (parseSquare \<lparr>FILES = [''A'', ''B'', ''C'', ''D'', ''E''], RANKS = [1, 2, 3, 4, 5]\<rparr>
        ''E5'') = Some (4, 5)"
proof -
  have c: "BOARD_SIZES 5 =
      Some \<lparr>FILES = [''A'', ''B'', ''C'', ''D'', ''E''], RANKS = [1, 2, 3, 4, 5]\<rparr>"
    by (simp add: BOARD_SIZES_def)
  have t: "toSquare \<lparr>FILES = [''A'', ''B'', ''C'', ''D'', ''E''], RANKS = [1, 2, 3, 4, 5]\<rparr>
      4 5 = Some ''E5''"
    by code_simp
  from parse_toSquare_roundtrip [OF c, of 4 5] t c show ?thesis
    by auto
qed

text \<open>
  C1. With the board size set to 5, \<open>allSquares\<close> still lists the sixteen squares A1 to
  D4: E5 is a square of the board (\<open>toSquare\<close> yields it) and is no candidate.
\<close>

theorem allSquares_size5:
  "map_option allSquares (BOARD_SIZES 5) =
     Some [''A1'', ''B1'', ''C1'', ''D1'', ''A2'', ''B2'', ''C2'', ''D2'',
       ''A3'', ''B3'', ''C3'', ''D3'', ''A4'', ''B4'', ''C4'', ''D4''] \<and>
   map_option (\<lambda>cfg. toSquare cfg 4 5) (BOARD_SIZES 5) = Some (Some ''E5'') \<and>
   map_option (\<lambda>cfg. ''E5'' \<in> set (allSquares cfg)) (BOARD_SIZES 5) = Some False"
  by code_simp

section \<open>Rays\<close>

lemma andThen_Inr [simp]: "andThen (Inr x) f = f x"
  by (simp add: andThen_def)

lemma andThen_Inl [simp]: "andThen (Inl e) f = Inl e"
  by (simp add: andThen_def)

lemma andThen_eq_Inr: "andThen m f = Inr y \<longleftrightarrow> (\<exists>x. m = Inr x \<and> f x = Inr y)"
  by (cases m) simp_all

lemma rayAttacksLoop_returns:
  "df \<noteq> 0 \<or> dr \<noteq> 0 \<Longrightarrow> \<exists>out. rayAttacksLoop cfg board fi r df dr = Inr out"
proof (induction cfg board fi r df dr rule: rayAttacksLoop.induct)
  case (1 cfg board fi r df dr)
  show ?case
  proof (cases "toSquare cfg fi r")
    case None
    then show ?thesis by (subst rayAttacksLoop.simps) simp
  next
    case (Some sq)
    show ?thesis
    proof (cases "Map_get board sq")
      case None
      with Some 1 obtain out where "rayAttacksLoop cfg board (fi + df) (r + dr) df dr = Inr out"
        by blast
      with Some None 1(2) show ?thesis by (subst rayAttacksLoop.simps) auto
    next
      case (Some occ)
      with \<open>toSquare cfg fi r = Some sq\<close> show ?thesis by (subst rayAttacksLoop.simps) simp
    qed
  qed
qed

lemma fst_addIfOk: "fst (addIfOk board c sq) = (if landable board c sq then [sq] else [])"
  by (simp add: addIfOk_def landable_def split: option.splits)

lemma snd_addIfOk: "snd (addIfOk board c sq) = (Map_get board sq = None)"
  by (simp add: addIfOk_def split: option.splits)

lemma rayLoop_filter:
  "df \<noteq> 0 \<or> dr \<noteq> 0 \<Longrightarrow> rayAttacksLoop cfg board fi r df dr = Inr out \<Longrightarrow>
     rayLoop cfg board c fi r df dr = Inr (filter (landable board c) out)"
proof (induction cfg board fi r df dr arbitrary: out rule: rayAttacksLoop.induct)
  case (1 cfg board fi r df dr)
  show ?case
  proof (cases "toSquare cfg fi r")
    case None
    with 1(3) have "out = []" by (subst (asm) rayAttacksLoop.simps) simp
    with None show ?thesis by (subst rayLoop.simps) simp
  next
    case sq: (Some sq)
    show ?thesis
    proof (cases "Map_get board sq")
      case None
      with sq 1(2,3) obtain rest where rest: "rayAttacksLoop cfg board (fi + df) (r + dr) df dr = Inr rest"
        and out: "out = sq # rest"
        by (subst (asm) rayAttacksLoop.simps) (auto simp: andThen_eq_Inr)
      from 1(1)[OF sq None _ 1(2) rest] 1(2)
      have "rayLoop cfg board c (fi + df) (r + dr) df dr = Inr (filter (landable board c) rest)"
        by blast
      with sq None out 1(2) show ?thesis
        by (subst rayLoop.simps) (auto simp: fst_addIfOk snd_addIfOk landable_def)
    next
      case (Some occ)
      with sq 1(3) have "out = [sq]" by (subst (asm) rayAttacksLoop.simps) simp
      with sq Some show ?thesis
        by (subst rayLoop.simps) (auto simp: fst_addIfOk snd_addIfOk)
    qed
  qed
qed

lemma rayAttacks_returns:
  "df \<noteq> 0 \<or> dr \<noteq> 0 \<Longrightarrow> \<exists>out. rayAttacks cfg from df dr board col = Inr out"
  by (simp add: rayAttacks_def rayAttacksLoop_returns split: option.splits)

lemma ray_filter:
  "df \<noteq> 0 \<or> dr \<noteq> 0 \<Longrightarrow> rayAttacks cfg from df dr board col = Inr out \<Longrightarrow>
     ray cfg board c from df dr = Inr (filter (landable board c) out)"
  by (auto simp: rayAttacks_def ray_def rayLoop_filter split: option.splits)

lemma rayAttacksAll_returns:
  "list_all (\<lambda>(df, dr). df \<noteq> 0 \<or> dr \<noteq> 0) ds \<Longrightarrow>
     \<exists>out. rayAttacksAll cfg square ds board col = Inr out"
proof (induction ds)
  case Nil
  show ?case by simp
next
  case (Cons d ds)
  obtain df dr where d: "d = (df, dr)" by (cases d)
  with Cons.prems have nz: "df \<noteq> 0 \<or> dr \<noteq> 0" and rest: "list_all (\<lambda>(df, dr). df \<noteq> 0 \<or> dr \<noteq> 0) ds"
    by simp_all
  from rayAttacks_returns [OF nz] obtain a where a: "rayAttacks cfg square df dr board col = Inr a"
    by blast
  from Cons.IH [OF rest] obtain b where "rayAttacksAll cfg square ds board col = Inr b"
    by blast
  with a d show ?case by simp
qed

lemma rays_filter:
  "list_all (\<lambda>(df, dr). df \<noteq> 0 \<or> dr \<noteq> 0) ds \<Longrightarrow>
     rayAttacksAll cfg square ds board col = Inr out \<Longrightarrow>
     rays cfg board c square ds = Inr (filter (landable board c) out)"
proof (induction ds arbitrary: out)
  case Nil
  then show ?case by simp
next
  case (Cons d ds)
  obtain df dr where d: "d = (df, dr)" by (cases d)
  with Cons.prems(1) have nz: "df \<noteq> 0 \<or> dr \<noteq> 0"
    and rest: "list_all (\<lambda>(df, dr). df \<noteq> 0 \<or> dr \<noteq> 0) ds"
    by simp_all
  from Cons.prems(2) d obtain a b where a: "rayAttacks cfg square df dr board col = Inr a"
    and b: "rayAttacksAll cfg square ds board col = Inr b" and out: "out = a @ b"
    by (auto simp: andThen_eq_Inr)
  from ray_filter [OF nz a] Cons.IH [OF rest b] d out show ?case
    by simp
qed

lemma normalizePieceType_literals:
  "normalizePieceType ''r'' = ''r''" "normalizePieceType ''b'' = ''b''"
  by code_simp+

lemma rookDirs: "list_all (\<lambda>(df, dr). df \<noteq> 0 \<or> dr \<noteq> 0) ([(1, 0), (- 1, 0), (0, 1), (0, - 1)] :: (int \<times> int) list)"
  by simp

lemma bishopDirs: "list_all (\<lambda>(df, dr). df \<noteq> 0 \<or> dr \<noteq> 0) ([(1, 1), (- 1, 1), (1, - 1), (- 1, - 1)] :: (int \<times> int) list)"
  by simp

lemma attacksFromSquare_returns:
  "\<exists>out. attacksFromSquare cfg square piece board = Inr out"
proof -
  have rook: "\<exists>out. attacksFromSquare cfg square (piece\<lparr>ptype := ''r''\<rparr>) board = Inr out"
    using rayAttacksAll_returns [OF rookDirs]
    by (subst attacksFromSquare.simps) (simp add: normalizePieceType_literals)
  have bishop: "\<exists>out. attacksFromSquare cfg square (piece\<lparr>ptype := ''b''\<rparr>) board = Inr out"
    using rayAttacksAll_returns [OF bishopDirs]
    by (subst attacksFromSquare.simps) (simp add: normalizePieceType_literals)
  from rook bishop rayAttacksAll_returns [OF rookDirs] rayAttacksAll_returns [OF bishopDirs]
  show ?thesis
    by (subst attacksFromSquare.simps) (auto simp: Let_def)
qed

lemma concat_map_addIfOk:
  "concat (map (\<lambda>sq. fst (addIfOk board c sq)) xs) = filter (landable board c) xs"
  by (induction xs) (simp_all add: fst_addIfOk)

lemma pseudoMoves_filter:
  assumes "attacksFromSquare cfg square piece board = Inr out"
  shows "pseudoMovesForPiece cfg piece square board =
     Inr (filter (landable board (normalizeColor (color piece))) out)"
proof -
  let ?t = "normalizePieceType (ptype piece)"
  let ?c = "normalizeColor (color piece)"
  have rookA: "attacksFromSquare cfg square (piece\<lparr>ptype := ''r''\<rparr>) board =
      rayAttacksAll cfg square [(1, 0), (- 1, 0), (0, 1), (0, - 1)] board (color piece)"
    by (subst attacksFromSquare.simps) (simp add: normalizePieceType_literals)
  have bishopA: "attacksFromSquare cfg square (piece\<lparr>ptype := ''b''\<rparr>) board =
      rayAttacksAll cfg square [(1, 1), (- 1, 1), (1, - 1), (- 1, - 1)] board (color piece)"
    by (subst attacksFromSquare.simps) (simp add: normalizePieceType_literals)
  consider (k) "?t = ''k''" | (n) "?t = ''n''" | (r) "?t = ''r''" | (b) "?t = ''b''"
    | (q) "?t = ''q''" | (other) "?t \<notin> {''k'', ''n'', ''r'', ''b'', ''q''}"
    by auto
  then show ?thesis
  proof cases
    case k
    with assms have "out = kingTargets cfg square"
      by (subst (asm) attacksFromSquare.simps) simp
    with k show ?thesis by (simp add: pseudoMovesForPiece_def concat_map_addIfOk)
  next
    case n
    with assms have "out = knightTargets cfg square"
      by (subst (asm) attacksFromSquare.simps) simp
    with n show ?thesis by (simp add: pseudoMovesForPiece_def concat_map_addIfOk)
  next
    case r
    with assms have "rayAttacksAll cfg square [(1, 0), (- 1, 0), (0, 1), (0, - 1)] board (color piece) = Inr out"
      by (subst (asm) attacksFromSquare.simps) simp
    from rays_filter [OF rookDirs this, of ?c] r show ?thesis
      by (simp add: pseudoMovesForPiece_def Let_def del: rays.simps)
  next
    case b
    with assms have "rayAttacksAll cfg square [(1, 1), (- 1, 1), (1, - 1), (- 1, - 1)] board (color piece) = Inr out"
      by (subst (asm) attacksFromSquare.simps) simp
    from rays_filter [OF bishopDirs this, of ?c] b show ?thesis
      by (simp add: pseudoMovesForPiece_def Let_def del: rays.simps)
  next
    case q
    with assms rookA bishopA obtain a b where
      a: "rayAttacksAll cfg square [(1, 0), (- 1, 0), (0, 1), (0, - 1)] board (color piece) = Inr a"
      and b: "rayAttacksAll cfg square [(1, 1), (- 1, 1), (1, - 1), (- 1, - 1)] board (color piece) = Inr b"
      and out: "out = a @ b"
      by (subst (asm) attacksFromSquare.simps) (auto simp: andThen_eq_Inr)
    from rays_filter [OF rookDirs a, of ?c] rays_filter [OF bishopDirs b, of ?c] q out
    show ?thesis
      by (simp add: pseudoMovesForPiece_def Let_def del: rays.simps)
  next
    case other
    with assms have "out = []"
      by (subst (asm) attacksFromSquare.simps) (simp add: Let_def)
    with other show ?thesis by (simp add: pseudoMovesForPiece_def Let_def)
  qed
qed

lemma pseudoMoves_returns: "\<exists>ms. pseudoMovesForPiece cfg piece square board = Inr ms"
  using attacksFromSquare_returns pseudoMoves_filter by blast

lemma attackedBy_iff:
  "attackedBy cfg q a board es =
     Inr (\<exists>(sq, p) \<in> set es. color p = a \<and> q \<in> set (projr (attacksFromSquare cfg sq p board)))"
proof (induction es)
  case Nil
  show ?case by simp
next
  case (Cons e es)
  obtain sq p where e: "e = (sq, p)" by (cases e)
  from attacksFromSquare_returns obtain out where "attacksFromSquare cfg sq p board = Inr out"
    by blast
  with Cons e show ?case by auto
qed

lemma isSquareAttacked_iff:
  "isSquareAttacked cfg q col board =
     Inr (\<exists>(sq, p) \<in> set board. color p = normalizeColor col
            \<and> q \<in> set (projr (attacksFromSquare cfg sq p board)))"
  by (simp add: isSquareAttacked_def attackedBy_iff)

lemma isCheck_returns: "\<exists>v. isCheck cfg col board = Inr v"
  by (auto simp: isCheck_def isSquareAttacked_iff Let_def split: option.splits)

lemma walk_0: "walk cfg board c fi r df dr 0 q \<longleftrightarrow> toSquare cfg fi r = Some q \<and> landable board c q"
  by (simp add: walk_def)

lemma walk_Suc:
  "walk cfg board c fi r df dr (Suc k) q \<longleftrightarrow>
     (\<exists>sq. toSquare cfg fi r = Some sq \<and> Map_get board sq = None)
     \<and> walk cfg board c (fi + df) (r + dr) df dr k q"
proof -
  have shift: "fi + (1 + int j) * df = fi + df + int j * df"
    "r + (1 + int j) * dr = r + dr + int j * dr" for j
    by (simp_all add: algebra_simps)
  show ?thesis
    unfolding walk_def All_less_Suc2
    by (simp add: shift conj_ac)
qed

lemma walk_cases:
  "(\<exists>k. walk cfg board c fi r df dr k q) \<longleftrightarrow>
     (toSquare cfg fi r = Some q \<and> landable board c q)
     \<or> ((\<exists>sq. toSquare cfg fi r = Some sq \<and> Map_get board sq = None)
         \<and> (\<exists>k. walk cfg board c (fi + df) (r + dr) df dr k q))"
proof
  assume "\<exists>k. walk cfg board c fi r df dr k q"
  then obtain k where k: "walk cfg board c fi r df dr k q" ..
  show "(toSquare cfg fi r = Some q \<and> landable board c q)
     \<or> ((\<exists>sq. toSquare cfg fi r = Some sq \<and> Map_get board sq = None)
         \<and> (\<exists>k. walk cfg board c (fi + df) (r + dr) df dr k q))"
  proof (cases k)
    case 0
    with k show ?thesis by (simp add: walk_0)
  next
    case (Suc k')
    with k show ?thesis by (auto simp: walk_Suc)
  qed
next
  assume "(toSquare cfg fi r = Some q \<and> landable board c q)
     \<or> ((\<exists>sq. toSquare cfg fi r = Some sq \<and> Map_get board sq = None)
         \<and> (\<exists>k. walk cfg board c (fi + df) (r + dr) df dr k q))"
  then show "\<exists>k. walk cfg board c fi r df dr k q"
  proof
    assume "toSquare cfg fi r = Some q \<and> landable board c q"
    then have "walk cfg board c fi r df dr 0 q" by (simp add: walk_0)
    then show ?thesis ..
  next
    assume "(\<exists>sq. toSquare cfg fi r = Some sq \<and> Map_get board sq = None)
         \<and> (\<exists>k. walk cfg board c (fi + df) (r + dr) df dr k q)"
    then obtain k where "walk cfg board c fi r df dr (Suc k) q"
      by (auto simp: walk_Suc)
    then show ?thesis ..
  qed
qed

lemma rayLoop_walk:
  "df \<noteq> 0 \<or> dr \<noteq> 0 \<Longrightarrow>
     \<exists>moves. rayLoop cfg board c fi r df dr = Inr moves
        \<and> (\<forall>q. q \<in> set moves \<longleftrightarrow> (\<exists>k. walk cfg board c fi r df dr k q))"
proof (induction cfg board c fi r df dr rule: rayLoop.induct)
  case (1 cfg board c fi r df dr)
  show ?case
  proof (cases "toSquare cfg fi r")
    case None
    then have "rayLoop cfg board c fi r df dr = Inr []"
      by (subst rayLoop.simps) simp
    with None show ?thesis
      by (subst walk_cases) simp
  next
    case sq: (Some sq)
    show ?thesis
    proof (cases "Map_get board sq")
      case None
      then have keep: "snd (addIfOk board c sq)" and land: "landable board c sq"
        by (simp_all add: snd_addIfOk landable_def)
      from 1(1) [OF sq _ _ 1(2)] keep 1(2) obtain rest where
        rest: "rayLoop cfg board c (fi + df) (r + dr) df dr = Inr rest"
        and mem: "\<forall>q. q \<in> set rest \<longleftrightarrow> (\<exists>k. walk cfg board c (fi + df) (r + dr) df dr k q)"
        by blast
      from sq keep 1(2) rest land
      have "rayLoop cfg board c fi r df dr = Inr (sq # rest)"
        by (subst rayLoop.simps) (auto simp: fst_addIfOk)
      moreover have "\<forall>q. q \<in> set (sq # rest) \<longleftrightarrow> (\<exists>k. walk cfg board c fi r df dr k q)"
        using sq None land mem by (subst walk_cases) auto
      ultimately show ?thesis by blast
    next
      case (Some occ)
      then have stop: "\<not> snd (addIfOk board c sq)"
        by (simp add: snd_addIfOk)
      with sq have "rayLoop cfg board c fi r df dr = Inr (if landable board c sq then [sq] else [])"
        by (subst rayLoop.simps) (simp add: fst_addIfOk)
      moreover have "\<forall>q. q \<in> set (if landable board c sq then [sq] else [])
          \<longleftrightarrow> (\<exists>k. walk cfg board c fi r df dr k q)"
        using sq Some by (subst walk_cases) auto
      ultimately show ?thesis by blast
    qed
  qed
qed

lemma ex_positive: "(\<exists>k. 0 < k \<and> Q k) \<longleftrightarrow> (\<exists>k. Q (Suc k))" for Q :: "nat \<Rightarrow> bool"
proof
  assume "\<exists>k. 0 < k \<and> Q k"
  then obtain k where k: "0 < k" "Q k" by blast
  then obtain k' where "k = Suc k'" by (cases k) auto
  with k show "\<exists>k. Q (Suc k)" by blast
next
  assume "\<exists>k. Q (Suc k)"
  then obtain k where "Q (Suc k)" ..
  then have "0 < Suc k \<and> Q (Suc k)" by simp
  then show "\<exists>k. 0 < k \<and> Q k" ..
qed

lemma all_between: "(\<forall>j. 0 < j \<and> j < Suc k \<longrightarrow> P j) \<longleftrightarrow> (\<forall>j<k. P (Suc j))"
  for P :: "nat \<Rightarrow> bool"
proof
  assume a: "\<forall>j. 0 < j \<and> j < Suc k \<longrightarrow> P j"
  show "\<forall>j<k. P (Suc j)"
  proof (intro allI impI)
    fix j assume "j < k"
    then have "0 < Suc j \<and> Suc j < Suc k" by simp
    with a show "P (Suc j)" by blast
  qed
next
  assume a: "\<forall>j<k. P (Suc j)"
  show "\<forall>j. 0 < j \<and> j < Suc k \<longrightarrow> P j"
  proof (intro allI impI)
    fix j assume j: "0 < j \<and> j < Suc k"
    then obtain j' where j': "j = Suc j'" by (cases j) auto
    with j have "j' < k" by simp
    with a j' show "P j" by blast
  qed
qed

lemma reaches_walk:
  "reaches cfg board c s df dr q \<longleftrightarrow>
     (\<exists>k. walk cfg board c (fileIndex s + df) (rank s + dr) df dr k q)"
proof -
  have shift: "fileIndex s + df + int j * df = fileIndex s + int (Suc j) * df"
    "rank s + dr + int j * dr = rank s + int (Suc j) * dr" for j
    by (simp_all add: algebra_simps)
  show ?thesis
    unfolding reaches_def ex_positive all_between walk_def shift squareAt_def ..
qed

lemma ray_reaches:
  assumes "parseSquare cfg from = Some s" and "df \<noteq> 0 \<or> dr \<noteq> 0"
  shows "\<exists>moves. ray cfg board c from df dr = Inr moves
     \<and> (\<forall>q. q \<in> set moves \<longleftrightarrow> reaches cfg board c s df dr q)"
  using assms rayLoop_walk [OF assms(2), of cfg board c "fileIndex s + df" "rank s + dr"]
  by (simp add: ray_def reaches_walk)

lemma rays_reaches:
  assumes "parseSquare cfg from = Some s"
  shows "list_all (\<lambda>(df, dr). df \<noteq> 0 \<or> dr \<noteq> 0) ds \<Longrightarrow>
    \<exists>moves. rays cfg board c from ds = Inr moves
      \<and> (\<forall>q. q \<in> set moves \<longleftrightarrow> (\<exists>(df, dr) \<in> set ds. reaches cfg board c s df dr q))"
proof (induction ds)
  case Nil
  show ?case by simp
next
  case (Cons d ds)
  obtain df dr where d: "d = (df, dr)" by (cases d)
  with Cons.prems have nz: "df \<noteq> 0 \<or> dr \<noteq> 0"
    and rest: "list_all (\<lambda>(df, dr). df \<noteq> 0 \<or> dr \<noteq> 0) ds"
    by simp_all
  from ray_reaches [OF assms nz] obtain a where
    a: "ray cfg board c from df dr = Inr a"
    and am: "\<forall>q. q \<in> set a \<longleftrightarrow> reaches cfg board c s df dr q"
    by blast
  from Cons.IH [OF rest] obtain b where
    b: "rays cfg board c from ds = Inr b"
    and bm: "\<forall>q. q \<in> set b \<longleftrightarrow> (\<exists>(df, dr) \<in> set ds. reaches cfg board c s df dr q)"
    by blast
  from a b d have "rays cfg board c from (d # ds) = Inr (a @ b)"
    by simp
  moreover from am bm d
  have "\<forall>q. q \<in> set (a @ b) \<longleftrightarrow> (\<exists>(df, dr) \<in> set (d # ds). reaches cfg board c s df dr q)"
    by auto
  ultimately show ?case by blast
qed

lemma slideDirections_nonzero:
  "list_all (\<lambda>(df, dr). df \<noteq> 0 \<or> dr \<noteq> 0) (slideDirections t)"
  by (simp add: slideDirections_def)

lemma rays_append:
  "rays cfg board c from (xs @ ys) =
     andThen (rays cfg board c from xs) (\<lambda>a. andThen (rays cfg board c from ys) (\<lambda>b. Inr (a @ b)))"
proof (induction xs)
  case Nil
  show ?case by (cases "rays cfg board c from ys") simp_all
next
  case (Cons d xs)
  obtain df dr where d: "d = (df, dr)" by (cases d)
  show ?case
  proof (cases "ray cfg board c from df dr")
    case (Inl e)
    with d show ?thesis by simp
  next
    case a: (Inr a)
    show ?thesis
    proof (cases "rays cfg board c from xs")
      case (Inl e)
      with d a Cons show ?thesis by simp
    next
      case x: (Inr x)
      show ?thesis
      proof (cases "rays cfg board c from ys")
        case (Inl e)
        with d a x Cons show ?thesis by simp
      next
        case (Inr y)
        with d a x Cons show ?thesis by simp
      qed
    qed
  qed
qed

lemma pseudoMoves_sliding:
  assumes "normalizePieceType (ptype piece) \<in> {''r'', ''b'', ''q''}"
  shows "pseudoMovesForPiece cfg piece from board =
     rays cfg board (normalizeColor (color piece)) from
       (slideDirections (normalizePieceType (ptype piece)))"
proof -
  let ?t = "normalizePieceType (ptype piece)"
  have "pseudoMovesForPiece cfg piece from board =
      andThen (rays cfg board (normalizeColor (color piece)) from
                 (if ?t = ''r'' \<or> ?t = ''q'' then [(1, 0), (- 1, 0), (0, 1), (0, - 1)] else []))
        (\<lambda>a. andThen (rays cfg board (normalizeColor (color piece)) from
                 (if ?t = ''b'' \<or> ?t = ''q'' then [(1, 1), (- 1, 1), (1, - 1), (- 1, - 1)] else []))
           (\<lambda>b. Inr (a @ b)))"
    using assms by (auto simp: pseudoMovesForPiece_def Let_def simp del: rays.simps(2))
  then show ?thesis
    unfolding slideDirections_def rays_append .
qed

lemma parse_A1: "parseSquare initialConfig ''A1'' = Some \<lparr>fileLetter = ''A'', rank = 1, fileIndex = 0\<rparr>"
  by code_simp

lemma squares_A: "toSquare initialConfig 0 2 = Some ''A2''" "toSquare initialConfig 0 3 = Some ''A3''"
  by code_simp+

lemma rook_file_example:
  assumes "Map_get b ''A2'' = None" and "Map_get b ''A3'' = Some occ" and "color occ \<noteq> ''w''"
  shows "ray initialConfig b ''w'' ''A1'' 0 1 = Inr [''A2'', ''A3'']"
proof -
  from assms have "rayLoop initialConfig b ''w'' 0 3 0 1 = Inr [''A3'']"
    by (subst rayLoop.simps) (simp add: squares_A addIfOk_def)
  with assms have "rayLoop initialConfig b ''w'' 0 2 0 1 = Inr [''A2'', ''A3'']"
    by (subst rayLoop.simps) (simp add: squares_A addIfOk_def)
  then show ?thesis
    by (simp add: ray_def parse_A1)
qed

text \<open>
  C2. Along every direction that is not zero, the list the closure \<open>ray\<close> adds to the
  pseudo-legal moves holds exactly the squares \<open>q\<close> that lie some steps away on the board,
  with only empty squares in between, and that are empty or hold a piece of another
  colour: the empty squares up to the first occupied square or the edge, and that first
  occupied square if it holds an enemy. The moves of a rook, bishop or queen are these
  lists over its directions. A white rook on A1, with A2 empty and an enemy on A3, gets
  exactly A2 and A3 along the file.
\<close>

theorem sliding_ray_exact:
  assumes "parseSquare cfg from = Some s" and "df \<noteq> 0 \<or> dr \<noteq> 0"
  shows "(\<exists>moves. ray cfg board c from df dr = Inr moves
            \<and> (\<forall>q. q \<in> set moves \<longleftrightarrow> reaches cfg board c s df dr q))
     \<and> (normalizePieceType (ptype piece) \<in> {''r'', ''b'', ''q''} \<longrightarrow>
          (\<exists>moves. pseudoMovesForPiece cfg piece from board = Inr moves
            \<and> (\<forall>q. q \<in> set moves \<longleftrightarrow>
                 (\<exists>(ef, er) \<in> set (slideDirections (normalizePieceType (ptype piece))).
                     reaches cfg board (normalizeColor (color piece)) s ef er q))))
     \<and> (\<forall>b occ. Map_get b ''A2'' = None \<and> Map_get b ''A3'' = Some occ \<and> color occ \<noteq> ''w''
          \<longrightarrow> ray initialConfig b ''w'' ''A1'' 0 1 = Inr [''A2'', ''A3''])"
proof (intro conjI)
  show "\<exists>moves. ray cfg board c from df dr = Inr moves
            \<and> (\<forall>q. q \<in> set moves \<longleftrightarrow> reaches cfg board c s df dr q)"
    using assms by (rule ray_reaches)
next
  show "normalizePieceType (ptype piece) \<in> {''r'', ''b'', ''q''} \<longrightarrow>
          (\<exists>moves. pseudoMovesForPiece cfg piece from board = Inr moves
            \<and> (\<forall>q. q \<in> set moves \<longleftrightarrow>
                 (\<exists>(ef, er) \<in> set (slideDirections (normalizePieceType (ptype piece))).
                     reaches cfg board (normalizeColor (color piece)) s ef er q)))"
    using rays_reaches [OF assms(1) slideDirections_nonzero]
    by (simp add: pseudoMoves_sliding del: rays.simps(2))
next
  show "\<forall>b occ. Map_get b ''A2'' = None \<and> Map_get b ''A3'' = Some occ \<and> color occ \<noteq> ''w''
          \<longrightarrow> ray initialConfig b ''w'' ''A1'' 0 1 = Inr [''A2'', ''A3'']"
    using rook_file_example by blast
qed

theorem sliding_ray_exact_witness:
  "parseSquare initialConfig ''A1'' = Some \<lparr>fileLetter = ''A'', rank = 1, fileIndex = 0\<rparr>
   \<and> ray initialConfig
        [(''A1'', \<lparr>ptype = ''r'', color = ''w''\<rparr>), (''A3'', \<lparr>ptype = ''b'', color = ''b''\<rparr>),
         (''D1'', \<lparr>ptype = ''k'', color = ''w''\<rparr>), (''D4'', \<lparr>ptype = ''k'', color = ''b''\<rparr>)]
        ''w'' ''A1'' 0 1 = Inr [''A2'', ''A3'']
   \<and> (\<forall>q. q \<in> set [''A2'', ''A3''] \<longleftrightarrow>
        reaches initialConfig
          [(''A1'', \<lparr>ptype = ''r'', color = ''w''\<rparr>), (''A3'', \<lparr>ptype = ''b'', color = ''b''\<rparr>),
           (''D1'', \<lparr>ptype = ''k'', color = ''w''\<rparr>), (''D4'', \<lparr>ptype = ''k'', color = ''b''\<rparr>)]
          ''w'' \<lparr>fileLetter = ''A'', rank = 1, fileIndex = 0\<rparr> 0 1 q)"
proof -
  let ?B = "[(''A1'', \<lparr>ptype = ''r'', color = ''w''\<rparr>), (''A3'', \<lparr>ptype = ''b'', color = ''b''\<rparr>),
         (''D1'', \<lparr>ptype = ''k'', color = ''w''\<rparr>), (''D4'', \<lparr>ptype = ''k'', color = ''b''\<rparr>)]"
  have p: "parseSquare initialConfig ''A1'' = Some \<lparr>fileLetter = ''A'', rank = 1, fileIndex = 0\<rparr>"
    by code_simp
  have nz: "(0::int) \<noteq> 0 \<or> (1::int) \<noteq> 0"
    by simp
  have r: "ray initialConfig ?B ''w'' ''A1'' 0 1 = Inr [''A2'', ''A3'']"
    by code_simp
  from sliding_ray_exact [OF p nz, of ?B "''w''"] r p show ?thesis
    by simp
qed

section \<open>Attack map\<close>

lemma look_0: "look cfg board fi r df dr 0 q \<longleftrightarrow> toSquare cfg fi r = Some q"
  by (simp add: look_def)

lemma look_Suc:
  "look cfg board fi r df dr (Suc k) q \<longleftrightarrow>
     (\<exists>sq. toSquare cfg fi r = Some sq \<and> Map_get board sq = None)
     \<and> look cfg board (fi + df) (r + dr) df dr k q"
proof -
  have shift: "fi + (1 + int j) * df = fi + df + int j * df"
    "r + (1 + int j) * dr = r + dr + int j * dr" for j
    by (simp_all add: algebra_simps)
  show ?thesis
    unfolding look_def All_less_Suc2
    by (simp add: shift conj_ac)
qed

lemma look_cases:
  "(\<exists>k. look cfg board fi r df dr k q) \<longleftrightarrow>
     toSquare cfg fi r = Some q
     \<or> ((\<exists>sq. toSquare cfg fi r = Some sq \<and> Map_get board sq = None)
         \<and> (\<exists>k. look cfg board (fi + df) (r + dr) df dr k q))"
proof
  assume "\<exists>k. look cfg board fi r df dr k q"
  then obtain k where k: "look cfg board fi r df dr k q" ..
  show "toSquare cfg fi r = Some q
     \<or> ((\<exists>sq. toSquare cfg fi r = Some sq \<and> Map_get board sq = None)
         \<and> (\<exists>k. look cfg board (fi + df) (r + dr) df dr k q))"
  proof (cases k)
    case 0
    with k show ?thesis by (simp add: look_0)
  next
    case (Suc k')
    with k show ?thesis by (auto simp: look_Suc)
  qed
next
  assume "toSquare cfg fi r = Some q
     \<or> ((\<exists>sq. toSquare cfg fi r = Some sq \<and> Map_get board sq = None)
         \<and> (\<exists>k. look cfg board (fi + df) (r + dr) df dr k q))"
  then show "\<exists>k. look cfg board fi r df dr k q"
  proof
    assume "toSquare cfg fi r = Some q"
    then have "look cfg board fi r df dr 0 q" by (simp add: look_0)
    then show ?thesis ..
  next
    assume "(\<exists>sq. toSquare cfg fi r = Some sq \<and> Map_get board sq = None)
         \<and> (\<exists>k. look cfg board (fi + df) (r + dr) df dr k q)"
    then obtain k where "look cfg board fi r df dr (Suc k) q"
      by (auto simp: look_Suc)
    then show ?thesis ..
  qed
qed

lemma rayAttacksLoop_look:
  "df \<noteq> 0 \<or> dr \<noteq> 0 \<Longrightarrow>
     \<exists>out. rayAttacksLoop cfg board fi r df dr = Inr out
        \<and> (\<forall>q. q \<in> set out \<longleftrightarrow> (\<exists>k. look cfg board fi r df dr k q))"
proof (induction cfg board fi r df dr rule: rayAttacksLoop.induct)
  case (1 cfg board fi r df dr)
  show ?case
  proof (cases "toSquare cfg fi r")
    case None
    then have "rayAttacksLoop cfg board fi r df dr = Inr []"
      by (subst rayAttacksLoop.simps) simp
    with None show ?thesis
      by (subst look_cases) simp
  next
    case sq: (Some sq)
    show ?thesis
    proof (cases "Map_get board sq")
      case None
      from 1(1) [OF sq None _ 1(2)] 1(2) obtain rest where
        rest: "rayAttacksLoop cfg board (fi + df) (r + dr) df dr = Inr rest"
        and mem: "\<forall>q. q \<in> set rest \<longleftrightarrow> (\<exists>k. look cfg board (fi + df) (r + dr) df dr k q)"
        by blast
      from sq None 1(2) rest
      have "rayAttacksLoop cfg board fi r df dr = Inr (sq # rest)"
        by (subst rayAttacksLoop.simps) auto
      moreover have "\<forall>q. q \<in> set (sq # rest) \<longleftrightarrow> (\<exists>k. look cfg board fi r df dr k q)"
        using sq None mem by (subst look_cases) auto
      ultimately show ?thesis by blast
    next
      case (Some occ)
      with sq have "rayAttacksLoop cfg board fi r df dr = Inr [sq]"
        by (subst rayAttacksLoop.simps) simp
      moreover have "\<forall>q. q \<in> set [sq] \<longleftrightarrow> (\<exists>k. look cfg board fi r df dr k q)"
        using sq Some by (subst look_cases) auto
      ultimately show ?thesis by blast
    qed
  qed
qed

lemma sees_look:
  "sees cfg board s df dr q \<longleftrightarrow>
     (\<exists>k. look cfg board (fileIndex s + df) (rank s + dr) df dr k q)"
proof -
  have shift: "fileIndex s + df + int j * df = fileIndex s + int (Suc j) * df"
    "rank s + dr + int j * dr = rank s + int (Suc j) * dr" for j
    by (simp_all add: algebra_simps)
  show ?thesis
    unfolding sees_def ex_positive all_between look_def shift squareAt_def ..
qed

lemma rayAttacks_sees:
  assumes "parseSquare cfg from = Some s" and "df \<noteq> 0 \<or> dr \<noteq> 0"
  shows "\<exists>out. rayAttacks cfg from df dr board col = Inr out
     \<and> (\<forall>q. q \<in> set out \<longleftrightarrow> sees cfg board s df dr q)"
  using assms rayAttacksLoop_look [OF assms(2), of cfg board "fileIndex s + df" "rank s + dr"]
  by (simp add: rayAttacks_def sees_look)

lemma rayAttacksAll_sees:
  assumes "parseSquare cfg from = Some s"
  shows "list_all (\<lambda>(df, dr). df \<noteq> 0 \<or> dr \<noteq> 0) ds \<Longrightarrow>
    \<exists>out. rayAttacksAll cfg from ds board col = Inr out
      \<and> (\<forall>q. q \<in> set out \<longleftrightarrow> (\<exists>(df, dr) \<in> set ds. sees cfg board s df dr q))"
proof (induction ds)
  case Nil
  show ?case by simp
next
  case (Cons d ds)
  obtain df dr where d: "d = (df, dr)" by (cases d)
  with Cons.prems have nz: "df \<noteq> 0 \<or> dr \<noteq> 0"
    and rest: "list_all (\<lambda>(df, dr). df \<noteq> 0 \<or> dr \<noteq> 0) ds"
    by simp_all
  from rayAttacks_sees [OF assms nz] obtain a where
    a: "rayAttacks cfg from df dr board col = Inr a"
    and am: "\<forall>q. q \<in> set a \<longleftrightarrow> sees cfg board s df dr q"
    by blast
  from Cons.IH [OF rest] obtain b where
    b: "rayAttacksAll cfg from ds board col = Inr b"
    and bm: "\<forall>q. q \<in> set b \<longleftrightarrow> (\<exists>(df, dr) \<in> set ds. sees cfg board s df dr q)"
    by blast
  from a b d have "rayAttacksAll cfg from (d # ds) board col = Inr (a @ b)"
    by simp
  moreover from am bm d
  have "\<forall>q. q \<in> set (a @ b) \<longleftrightarrow> (\<exists>(df, dr) \<in> set (d # ds). sees cfg board s df dr q)"
    by auto
  ultimately show ?case by blast
qed

lemma rayAttacksAll_append:
  "rayAttacksAll cfg from (xs @ ys) board col =
     andThen (rayAttacksAll cfg from xs board col)
       (\<lambda>a. andThen (rayAttacksAll cfg from ys board col) (\<lambda>b. Inr (a @ b)))"
proof (induction xs)
  case Nil
  show ?case by (cases "rayAttacksAll cfg from ys board col") simp_all
next
  case (Cons d xs)
  obtain df dr where d: "d = (df, dr)" by (cases d)
  show ?case
  proof (cases "rayAttacks cfg from df dr board col")
    case (Inl e)
    with d show ?thesis by simp
  next
    case a: (Inr a)
    show ?thesis
    proof (cases "rayAttacksAll cfg from xs board col")
      case (Inl e)
      with d a Cons show ?thesis by simp
    next
      case x: (Inr x)
      show ?thesis
      proof (cases "rayAttacksAll cfg from ys board col")
        case (Inl e)
        with d a x Cons show ?thesis by simp
      next
        case (Inr y)
        with d a x Cons show ?thesis by simp
      qed
    qed
  qed
qed

lemma attacks_sliding:
  assumes "normalizePieceType (ptype piece) \<in> {''r'', ''b'', ''q''}"
  shows "attacksFromSquare cfg square piece board =
     rayAttacksAll cfg square (slideDirections (normalizePieceType (ptype piece))) board
       (color piece)"
proof -
  let ?t = "normalizePieceType (ptype piece)"
  have rookA: "attacksFromSquare cfg square (piece\<lparr>ptype := ''r''\<rparr>) board =
      rayAttacksAll cfg square [(1, 0), (- 1, 0), (0, 1), (0, - 1)] board (color piece)"
    by (subst attacksFromSquare.simps) (simp add: normalizePieceType_literals)
  have bishopA: "attacksFromSquare cfg square (piece\<lparr>ptype := ''b''\<rparr>) board =
      rayAttacksAll cfg square [(1, 1), (- 1, 1), (1, - 1), (- 1, - 1)] board (color piece)"
    by (subst attacksFromSquare.simps) (simp add: normalizePieceType_literals)
  from assms consider (r) "?t = ''r''" | (b) "?t = ''b''" | (q) "?t = ''q''" by auto
  then show ?thesis
  proof cases
    case r
    then show ?thesis
      by (subst attacksFromSquare.simps) (simp add: slideDirections_def del: rayAttacksAll.simps(2))
  next
    case b
    then show ?thesis
      by (subst attacksFromSquare.simps) (simp add: slideDirections_def del: rayAttacksAll.simps(2))
  next
    case q
    have "slideDirections ''q'' = [(1, 0), (- 1, 0), (0, 1), (0, - 1)] @ [(1, 1), (- 1, 1), (1, - 1), (- 1, - 1)]"
      by (simp add: slideDirections_def)
    with q rookA bishopA show ?thesis
      by (subst attacksFromSquare.simps) (simp only: rayAttacksAll_append Let_def, simp del: rayAttacksAll.simps(2))
  qed
qed

lemma kingTargets_iff:
  assumes "parseSquare cfg s = Some ps"
  shows "x \<in> set (kingTargets cfg s) \<longleftrightarrow>
    (\<exists>df \<in> {- 1, 0, 1}. \<exists>dr \<in> {- 1, 0, 1}. (df, dr) \<noteq> (0, 0)
        \<and> toSquare cfg (fileIndex ps + df) (rank ps + dr) = Some x)"
  using assms by (auto simp: kingTargets_def optionList_def split: option.splits)

lemma knightTargets_iff:
  assumes "parseSquare cfg s = Some ps"
  shows "x \<in> set (knightTargets cfg s) \<longleftrightarrow>
    (\<exists>(df, dr) \<in> {(1, 2), (2, 1), (- 1, 2), (- 2, 1), (1, - 2), (2, - 1), (- 1, - 2), (- 2, - 1)}.
        toSquare cfg (fileIndex ps + df) (rank ps + dr) = Some x)"
  using assms by (auto simp: knightTargets_def optionList_def split: option.splits)

lemma rayAttacksAll_unparsed:
  "parseSquare cfg s = None \<Longrightarrow> rayAttacksAll cfg s ds board col = Inr []"
  by (induction ds) (auto simp: rayAttacks_def)

lemma attacks_unparsed:
  assumes "parseSquare cfg s = None"
  shows "attacksFromSquare cfg s p board = Inr []"
proof -
  have rookA: "attacksFromSquare cfg s (p\<lparr>ptype := ''r''\<rparr>) board = Inr []"
    using assms
    by (subst attacksFromSquare.simps)
       (simp add: normalizePieceType_literals rayAttacksAll_unparsed del: rayAttacksAll.simps)
  have bishopA: "attacksFromSquare cfg s (p\<lparr>ptype := ''b''\<rparr>) board = Inr []"
    using assms
    by (subst attacksFromSquare.simps)
       (simp add: normalizePieceType_literals rayAttacksAll_unparsed del: rayAttacksAll.simps)
  from assms rookA bishopA show ?thesis
    by (subst attacksFromSquare.simps)
       (simp add: Let_def kingTargets_def knightTargets_def rayAttacksAll_unparsed
          del: rayAttacksAll.simps)
qed

lemma attacks_other:
  assumes "normalizePieceType (ptype p) \<notin> {''k'', ''n'', ''r'', ''b'', ''q''}"
  shows "attacksFromSquare cfg s p board = Inr []"
  using assms by (subst attacksFromSquare.simps) (simp add: Let_def)

text \<open>
  C3, as stated, fails: with a white rook on A1 and the white king on A2, the square A2
  is attacked by white, and A2 is a pseudo-legal destination of neither white piece.
\<close>

theorem attacked_not_pseudo_move:
  "isSquareAttacked initialConfig ''A2'' ''w''
     [(''A1'', \<lparr>ptype = ''r'', color = ''w''\<rparr>), (''A2'', \<lparr>ptype = ''k'', color = ''w''\<rparr>),
      (''D4'', \<lparr>ptype = ''k'', color = ''b''\<rparr>)] = Inr True
   \<and> pseudoMovesForPiece initialConfig \<lparr>ptype = ''r'', color = ''w''\<rparr> ''A1''
     [(''A1'', \<lparr>ptype = ''r'', color = ''w''\<rparr>), (''A2'', \<lparr>ptype = ''k'', color = ''w''\<rparr>),
      (''D4'', \<lparr>ptype = ''k'', color = ''b''\<rparr>)] = Inr [''B1'', ''C1'', ''D1'']
   \<and> pseudoMovesForPiece initialConfig \<lparr>ptype = ''k'', color = ''w''\<rparr> ''A2''
     [(''A1'', \<lparr>ptype = ''r'', color = ''w''\<rparr>), (''A2'', \<lparr>ptype = ''k'', color = ''w''\<rparr>),
      (''D4'', \<lparr>ptype = ''k'', color = ''b''\<rparr>)] = Inr [''A3'', ''B1'', ''B2'', ''B3'']"
  by code_simp

text \<open>
  C3, amended. \<open>isSquareAttacked\<close> returns, and it is true exactly when some piece of the
  colour has the square in its attack set \<open>attacksFromSquare\<close>. The attack set is
  computed against raw occupancy. For a king it is \<open>kingTargets\<close>, the squares on the
  board one step away in the eight directions, and for a knight \<open>knightTargets\<close>, the
  squares on the board at the eight knight offsets: neither looks at the board. For a
  rook, bishop or queen it is the squares its rays meet (\<open>sees\<close>): the empty squares
  outward and the first occupied square, whatever the colour of the piece there. For
  any other piece type, and for a square that does not parse, it is empty. The
  pseudo-legal moves of a piece are its attack set without the squares held by a piece
  of its own colour.
\<close>

theorem attack_sets:
  "(isSquareAttacked cfg q col board = Inr True \<longleftrightarrow>
      (\<exists>(s, p) \<in> set board. color p = normalizeColor col
          \<and> (\<exists>out. attacksFromSquare cfg s p board = Inr out \<and> q \<in> set out)))
   \<and> (\<exists>v. isSquareAttacked cfg q col board = Inr v)
   \<and> (\<exists>out. attacksFromSquare cfg s p board = Inr out
          \<and> pseudoMovesForPiece cfg p s board =
              Inr (filter (landable board (normalizeColor (color p))) out)
          \<and> (normalizePieceType (ptype p) = ''k'' \<longrightarrow> out = kingTargets cfg s)
          \<and> (normalizePieceType (ptype p) = ''n'' \<longrightarrow> out = knightTargets cfg s)
          \<and> (normalizePieceType (ptype p) \<in> {''r'', ''b'', ''q''} \<longrightarrow>
               (\<forall>ps x. parseSquare cfg s = Some ps \<longrightarrow>
                  (x \<in> set out \<longleftrightarrow>
                     (\<exists>(df, dr) \<in> set (slideDirections (normalizePieceType (ptype p))).
                         sees cfg board ps df dr x))))
          \<and> (normalizePieceType (ptype p) \<notin> {''k'', ''n'', ''r'', ''b'', ''q''} \<longrightarrow> out = [])
          \<and> (parseSquare cfg s = None \<longrightarrow> out = []))
   \<and> (\<forall>ps x. parseSquare cfg s = Some ps \<longrightarrow>
         (x \<in> set (kingTargets cfg s) \<longleftrightarrow>
            (\<exists>df \<in> {- 1, 0, 1}. \<exists>dr \<in> {- 1, 0, 1}. (df, dr) \<noteq> (0, 0)
                \<and> toSquare cfg (fileIndex ps + df) (rank ps + dr) = Some x))
         \<and> (x \<in> set (knightTargets cfg s) \<longleftrightarrow>
            (\<exists>(df, dr) \<in> {(1, 2), (2, 1), (- 1, 2), (- 2, 1),
                             (1, - 2), (2, - 1), (- 1, - 2), (- 2, - 1)}.
                toSquare cfg (fileIndex ps + df) (rank ps + dr) = Some x)))"
proof (intro conjI)
  have "(\<exists>(s, p) \<in> set board. color p = normalizeColor col
          \<and> (\<exists>out. attacksFromSquare cfg s p board = Inr out \<and> q \<in> set out))
      \<longleftrightarrow> (\<exists>(s, p) \<in> set board. color p = normalizeColor col
          \<and> q \<in> set (projr (attacksFromSquare cfg s p board)))"
  proof -
    have "(\<exists>out. attacksFromSquare cfg s p board = Inr out \<and> q \<in> set out)
        \<longleftrightarrow> q \<in> set (projr (attacksFromSquare cfg s p board))" for s p
      using attacksFromSquare_returns [of cfg s p board] by auto
    then show ?thesis by simp
  qed
  then show "isSquareAttacked cfg q col board = Inr True \<longleftrightarrow>
      (\<exists>(s, p) \<in> set board. color p = normalizeColor col
          \<and> (\<exists>out. attacksFromSquare cfg s p board = Inr out \<and> q \<in> set out))"
    by (simp add: isSquareAttacked_iff)
next
  show "\<exists>v. isSquareAttacked cfg q col board = Inr v"
    by (simp add: isSquareAttacked_iff)
next
  let ?t = "normalizePieceType (ptype p)"
  obtain out where out: "attacksFromSquare cfg s p board = Inr out"
    using attacksFromSquare_returns by blast
  have pm: "pseudoMovesForPiece cfg p s board =
      Inr (filter (landable board (normalizeColor (color p))) out)"
    using out by (rule pseudoMoves_filter)
  have k: "?t = ''k'' \<longrightarrow> out = kingTargets cfg s"
    using out by (subst (asm) attacksFromSquare.simps) (auto simp: Let_def)
  have n: "?t = ''n'' \<longrightarrow> out = knightTargets cfg s"
    using out by (subst (asm) attacksFromSquare.simps) (auto simp: Let_def)
  have sl: "?t \<in> {''r'', ''b'', ''q''} \<longrightarrow>
      (\<forall>ps x. parseSquare cfg s = Some ps \<longrightarrow>
         (x \<in> set out \<longleftrightarrow> (\<exists>(df, dr) \<in> set (slideDirections ?t). sees cfg board ps df dr x)))"
  proof (intro impI allI)
    fix ps x
    assume t: "?t \<in> {''r'', ''b'', ''q''}" and ps: "parseSquare cfg s = Some ps"
    from attacks_sliding [OF t] out
    have "rayAttacksAll cfg s (slideDirections ?t) board (color p) = Inr out" by simp
    with rayAttacksAll_sees [OF ps slideDirections_nonzero, of ?t board "color p"]
    show "x \<in> set out \<longleftrightarrow> (\<exists>(df, dr) \<in> set (slideDirections ?t). sees cfg board ps df dr x)"
      by auto
  qed
  have ot: "?t \<notin> {''k'', ''n'', ''r'', ''b'', ''q''} \<longrightarrow> out = []"
    using out attacks_other [of p cfg s board] by auto
  have un: "parseSquare cfg s = None \<longrightarrow> out = []"
    using out attacks_unparsed [of cfg s p board] by auto
  from out pm k n sl ot un
  show "\<exists>out. attacksFromSquare cfg s p board = Inr out
          \<and> pseudoMovesForPiece cfg p s board =
              Inr (filter (landable board (normalizeColor (color p))) out)
          \<and> (?t = ''k'' \<longrightarrow> out = kingTargets cfg s)
          \<and> (?t = ''n'' \<longrightarrow> out = knightTargets cfg s)
          \<and> (?t \<in> {''r'', ''b'', ''q''} \<longrightarrow>
               (\<forall>ps x. parseSquare cfg s = Some ps \<longrightarrow>
                  (x \<in> set out \<longleftrightarrow>
                     (\<exists>(df, dr) \<in> set (slideDirections ?t). sees cfg board ps df dr x))))
          \<and> (?t \<notin> {''k'', ''n'', ''r'', ''b'', ''q''} \<longrightarrow> out = [])
          \<and> (parseSquare cfg s = None \<longrightarrow> out = [])"
    by (intro exI [of _ out] conjI)
next
  show "\<forall>ps x. parseSquare cfg s = Some ps \<longrightarrow>
         (x \<in> set (kingTargets cfg s) \<longleftrightarrow>
            (\<exists>df \<in> {- 1, 0, 1}. \<exists>dr \<in> {- 1, 0, 1}. (df, dr) \<noteq> (0, 0)
                \<and> toSquare cfg (fileIndex ps + df) (rank ps + dr) = Some x))
         \<and> (x \<in> set (knightTargets cfg s) \<longleftrightarrow>
            (\<exists>(df, dr) \<in> {(1, 2), (2, 1), (- 1, 2), (- 2, 1),
                             (1, - 2), (2, - 1), (- 1, - 2), (- 2, - 1)}.
                toSquare cfg (fileIndex ps + df) (rank ps + dr) = Some x))"
    using kingTargets_iff knightTargets_iff by blast
qed

theorem attack_sets_witness:
  "isSquareAttacked initialConfig ''A2'' ''w''
     [(''A1'', \<lparr>ptype = ''r'', color = ''w''\<rparr>), (''A2'', \<lparr>ptype = ''k'', color = ''w''\<rparr>),
      (''D4'', \<lparr>ptype = ''k'', color = ''b''\<rparr>)] = Inr True
   \<and> attacksFromSquare initialConfig ''A1'' \<lparr>ptype = ''r'', color = ''w''\<rparr>
     [(''A1'', \<lparr>ptype = ''r'', color = ''w''\<rparr>), (''A2'', \<lparr>ptype = ''k'', color = ''w''\<rparr>),
      (''D4'', \<lparr>ptype = ''k'', color = ''b''\<rparr>)] = Inr [''B1'', ''C1'', ''D1'', ''A2'']
   \<and> pseudoMovesForPiece initialConfig \<lparr>ptype = ''r'', color = ''w''\<rparr> ''A1''
     [(''A1'', \<lparr>ptype = ''r'', color = ''w''\<rparr>), (''A2'', \<lparr>ptype = ''k'', color = ''w''\<rparr>),
      (''D4'', \<lparr>ptype = ''k'', color = ''b''\<rparr>)] =
      Inr (filter (landable
        [(''A1'', \<lparr>ptype = ''r'', color = ''w''\<rparr>), (''A2'', \<lparr>ptype = ''k'', color = ''w''\<rparr>),
         (''D4'', \<lparr>ptype = ''k'', color = ''b''\<rparr>)] ''w'') [''B1'', ''C1'', ''D1'', ''A2''])
   \<and> Map_get
        [(''A1'', \<lparr>ptype = ''r'', color = ''w''\<rparr>), (''A2'', \<lparr>ptype = ''k'', color = ''w''\<rparr>),
         (''D4'', \<lparr>ptype = ''k'', color = ''b''\<rparr>)] ''A2'' = Some \<lparr>ptype = ''k'', color = ''w''\<rparr>
   \<and> (\<exists>(df, dr) \<in> set (slideDirections ''r'').
         sees initialConfig
           [(''A1'', \<lparr>ptype = ''r'', color = ''w''\<rparr>), (''A2'', \<lparr>ptype = ''k'', color = ''w''\<rparr>),
            (''D4'', \<lparr>ptype = ''k'', color = ''b''\<rparr>)]
           \<lparr>fileLetter = ''A'', rank = 1, fileIndex = 0\<rparr> df dr ''A2'')"
proof -
  let ?B = "[(''A1'', \<lparr>ptype = ''r'', color = ''w''\<rparr>), (''A2'', \<lparr>ptype = ''k'', color = ''w''\<rparr>),
      (''D4'', \<lparr>ptype = ''k'', color = ''b''\<rparr>)]"
  let ?R = "\<lparr>ptype = ''r'', color = ''w''\<rparr>"
  have a: "attacksFromSquare initialConfig ''A1'' ?R ?B = Inr [''B1'', ''C1'', ''D1'', ''A2'']"
    by code_simp
  have n: "normalizeColor ''w'' = ''w''"
    by code_simp
  have t: "normalizePieceType (ptype ?R) = ''r''"
    by (simp add: normalizePieceType_literals)
  have m: "(''A1'', ?R) \<in> set ?B"
    by simp
  have g: "Map_get ?B ''A2'' = Some \<lparr>ptype = ''k'', color = ''w''\<rparr>"
    by code_simp
  note th = attack_sets [of initialConfig "''A2''" "''w''" ?B "''A1''" ?R]
  from th a n m have att: "isSquareAttacked initialConfig ''A2'' ''w'' ?B = Inr True"
    by auto
  from th [THEN conjunct2, THEN conjunct2, THEN conjunct1] a
  have pm: "pseudoMovesForPiece initialConfig ?R ''A1'' ?B =
      Inr (filter (landable ?B (normalizeColor (color ?R))) [''B1'', ''C1'', ''D1'', ''A2''])"
    and sl: "normalizePieceType (ptype ?R) \<in> {''r'', ''b'', ''q''} \<longrightarrow>
       (\<forall>ps x. parseSquare initialConfig ''A1'' = Some ps \<longrightarrow>
          (x \<in> set [''B1'', ''C1'', ''D1'', ''A2''] \<longleftrightarrow>
             (\<exists>(df, dr) \<in> set (slideDirections (normalizePieceType (ptype ?R))).
                 sees initialConfig ?B ps df dr x)))"
    by auto
  have tin: "normalizePieceType (ptype ?R) \<in> {''r'', ''b'', ''q''}"
    using t by simp
  from sl [rule_format, OF tin parse_A1, of "''A2''"] t
  have s: "\<exists>(df, dr) \<in> set (slideDirections ''r'').
      sees initialConfig ?B \<lparr>fileLetter = ''A'', rank = 1, fileIndex = 0\<rparr> df dr ''A2''"
    by simp
  from att a pm n g s show ?thesis
    by simp
qed

section \<open>Colours\<close>

lemma lowerChar_idem: "lowerChar (lowerChar c) = lowerChar c"
  by (simp add: lowerChar_def)

lemma white_lowerChar: "isWhiteSpace (lowerChar c) = isWhiteSpace c"
  by (simp add: lowerChar_def isWhiteSpace_def)

lemma toLowerCase_idem: "toLowerCase (toLowerCase s) = toLowerCase s"
  by (simp add: toLowerCase_def lowerChar_idem)

lemma dropWhile_white_lower:
  "dropWhile isWhiteSpace (map lowerChar s) = map lowerChar (dropWhile isWhiteSpace s)"
  by (induction s) (simp_all add: white_lowerChar)

lemma trim_toLowerCase: "trim (toLowerCase s) = toLowerCase (trim s)"
proof -
  have "trim (map lowerChar s)
      = rev (dropWhile isWhiteSpace (map lowerChar (rev (dropWhile isWhiteSpace s))))"
    by (simp only: trim_def dropWhile_white_lower rev_map)
  also have "\<dots> = map lowerChar (rev (dropWhile isWhiteSpace (rev (dropWhile isWhiteSpace s))))"
    by (simp only: dropWhile_white_lower rev_map)
  finally show ?thesis
    by (simp only: toLowerCase_def trim_def)
qed

lemma dropWhile_rev_dropWhile:
  "dropWhile P (rev (dropWhile P (rev (dropWhile P s)))) = rev (dropWhile P (rev (dropWhile P s)))"
proof (cases "dropWhile P (rev (dropWhile P s))")
  case Nil
  show ?thesis unfolding Nil by simp
next
  case (Cons y ys)
  let ?t = "dropWhile P s"
  have "?t \<noteq> []"
  proof
    assume e: "?t = []"
    from Cons show False unfolding e by simp
  qed
  then have h: "\<not> P (hd ?t)" by (rule hd_dropWhile)
  obtain zs where zs: "rev ?t = zs @ y # ys"
    by (metis Cons takeWhile_dropWhile_id)
  then have "?t = rev ys @ y # rev zs" 
    by (metis rev_append rev.simps(2) rev_rev_ident append.assoc append_Cons append_Nil)
  with h have "\<not> P (hd (rev ys @ [y]))"
    by (cases "rev ys") auto
  then show ?thesis
    using Cons by (cases "rev ys") auto
qed

lemma trim_idem: "trim (trim s) = trim s"
proof -
  let ?u = "dropWhile isWhiteSpace (rev (dropWhile isWhiteSpace s))"
  have "dropWhile isWhiteSpace (rev ?u) = rev ?u"
    by (rule dropWhile_rev_dropWhile)
  moreover have "dropWhile isWhiteSpace ?u = ?u"
    by (simp add: dropWhile_idem)
  ultimately show ?thesis
    by (simp add: trim_def)
qed

lemma normalizeColor_idem: "normalizeColor (normalizeColor c) = normalizeColor c"
proof -
  let ?x = "toLowerCase (trim c)"
  have x: "toLowerCase (trim ?x) = ?x"
    by (simp add: trim_toLowerCase [symmetric] trim_idem toLowerCase_idem)
  have w: "toLowerCase (trim ''w'') = ''w''" and b: "toLowerCase (trim ''b'') = ''b''"
    by code_simp+
  show ?thesis
    by (simp add: normalizeColor_def Let_def x w b)
qed

section \<open>Legality filter and classifiers return\<close>

lemma cloneBoard_id: "cloneBoard b = b"
  by (induction b) (auto simp: cloneBoard_def)

lemma applyMove_eq:
  "applyMove b from to =
     (case map_of b from of None \<Rightarrow> None
      | Some p \<Rightarrow> Some (AList.update to p (AList.delete from b)))"
  by (simp add: applyMove_def cloneBoard_id Map_get_def Map_set_def Map_delete_def
      split: option.splits)

lemma isSquareAttacked_returns: "\<exists>v. isSquareAttacked cfg q col board = Inr v"
  by (simp add: isSquareAttacked_iff)

lemma legalAmong_returns:
  assumes "map_of board from \<noteq> None"
  shows "\<exists>legal. legalAmong cfg p from board candidate = Inr legal"
proof (induction candidate)
  case Nil
  show ?case by simp
next
  case (Cons to candidate)
  from assms obtain nextBoard where n: "applyMove board from to = Some nextBoard"
    by (auto simp: applyMove_eq)
  from Cons obtain rest where rest: "legalAmong cfg p from board candidate = Inr rest"
    by blast
  obtain chk where chk: "isCheck cfg (color p) nextBoard = Inr chk"
    using isCheck_returns by blast
  obtain att where att: "isSquareAttacked cfg to (oppositeColor (color p)) nextBoard = Inr att"
    using isSquareAttacked_returns by blast
  from n rest chk att show ?case
    by simp
qed

lemma getLegalMoves_returns:
  assumes "map_of board from \<noteq> None"
  shows "\<exists>legal. getLegalMoves cfg piece from board = Inr legal"
proof -
  let ?p = "\<lparr>ptype = normalizePieceType (ptype piece), color = normalizeColor (color piece)\<rparr>"
  obtain candidate where "pseudoMovesForPiece cfg ?p from board = Inr candidate"
    using pseudoMoves_returns by blast
  with legalAmong_returns [OF assms, of cfg ?p candidate] show ?thesis
    by (simp add: getLegalMoves_def)
qed

lemma movesOfEntries_returns:
  "set es \<subseteq> set board \<Longrightarrow> \<exists>out. movesOfEntries cfg c board es = Inr out"
proof (induction es)
  case Nil
  show ?case by simp
next
  case (Cons e es)
  obtain sq p where e: "e = (sq, p)" by (cases e)
  with Cons.prems have "(sq, p) \<in> set board" by simp
  then have "map_of board sq \<noteq> None"
    by (metis map_of_eq_None_iff image_eqI fst_conv)
  then obtain moves where m: "getLegalMoves cfg p sq board = Inr moves"
    using getLegalMoves_returns by blast
  from Cons obtain out where "movesOfEntries cfg c board es = Inr out"
    by auto
  with m e show ?case by simp
qed

lemma allLegalMoves_returns: "\<exists>out. allLegalMoves cfg col board = Inr out"
  by (simp add: allLegalMoves_def movesOfEntries_returns)

lemma isCheck_normalize: "isCheck cfg (normalizeColor col) board = isCheck cfg col board"
  by (simp add: isCheck_def normalizeColor_idem)

lemma allLegalMoves_normalize:
  "allLegalMoves cfg (normalizeColor col) board = allLegalMoves cfg col board"
  by (simp add: allLegalMoves_def normalizeColor_idem)

lemma isCheckmate_eq:
  "isCheckmate cfg col board =
     andThen (isCheck cfg col board)
       (\<lambda>check. if \<not> check then Inr False
                 else andThen (allLegalMoves cfg col board) (\<lambda>moves. Inr (moves = [])))"
  by (simp add: isCheckmate_def isCheck_normalize allLegalMoves_normalize cong: if_cong)

lemma isStalemate_eq:
  "isStalemate cfg col board =
     andThen (isCheck cfg col board)
       (\<lambda>check. if check then Inr False
                 else andThen (allLegalMoves cfg col board) (\<lambda>moves. Inr (moves = [])))"
  by (simp add: isStalemate_def isCheck_normalize allLegalMoves_normalize cong: if_cong)

text \<open>
  C6, as stated, fails in its last part: the classifiers are not functions of the colour
  and the board alone. They read the configured board size: for the same board (black
  king D4, white king C2, white knight A3) and the same colour, \<open>isStalemate\<close> is true
  after \<open>setBoardSize(4)\<close> and false after \<open>setBoardSize(5)\<close>.
\<close>

theorem classifiers_read_board_size:
  "map_option (\<lambda>cfg. isStalemate cfg ''b''
      [(''D4'', \<lparr>ptype = ''k'', color = ''b''\<rparr>), (''C2'', \<lparr>ptype = ''k'', color = ''w''\<rparr>),
       (''A3'', \<lparr>ptype = ''n'', color = ''w''\<rparr>)]) (setBoardSize 4) = Some (Inr True)
   \<and> map_option (\<lambda>cfg. isStalemate cfg ''b''
      [(''D4'', \<lparr>ptype = ''k'', color = ''b''\<rparr>), (''C2'', \<lparr>ptype = ''k'', color = ''w''\<rparr>),
       (''A3'', \<lparr>ptype = ''n'', color = ''w''\<rparr>)]) (setBoardSize 5) = Some (Inr False)"
  by code_simp

text \<open>
  C6, amended. For every configured board size, board and colour the three classifiers
  return a value; a checkmate is a check with no legal move, and a stalemate is no
  check. Their values are determined by those of \<open>isCheck\<close> and \<open>allLegalMoves\<close> at the
  same board size, colour and board (checkmate: check and no legal move; stalemate: no
  check and no legal move), and they depend on the colour through \<open>normalizeColor\<close>
  only. They are functions of the board size, the colour and the board.
\<close>

theorem classifier_implications:
  "(isCheckmate cfg c B = Inr True \<longrightarrow>
       isCheck cfg c B = Inr True \<and> allLegalMoves cfg c B = Inr [])
   \<and> (isStalemate cfg c B = Inr True \<longrightarrow> isCheck cfg c B = Inr False)
   \<and> (\<exists>check mate stale. isCheck cfg c B = Inr check \<and> isCheckmate cfg c B = Inr mate
          \<and> isStalemate cfg c B = Inr stale)
   \<and> (\<exists>check moves. isCheck cfg c B = Inr check \<and> allLegalMoves cfg c B = Inr moves
          \<and> isCheckmate cfg c B = Inr (check \<and> moves = [])
          \<and> isStalemate cfg c B = Inr (\<not> check \<and> moves = []))
   \<and> isCheck cfg (normalizeColor c) B = isCheck cfg c B
   \<and> isCheckmate cfg (normalizeColor c) B = isCheckmate cfg c B
   \<and> isStalemate cfg (normalizeColor c) B = isStalemate cfg c B"
proof -
  obtain check where check: "isCheck cfg c B = Inr check"
    using isCheck_returns by blast
  obtain moves where moves: "allLegalMoves cfg c B = Inr moves"
    using allLegalMoves_returns by blast
  have n: "isCheck cfg (normalizeColor c) B = isCheck cfg c B
      \<and> isCheckmate cfg (normalizeColor c) B = isCheckmate cfg c B
      \<and> isStalemate cfg (normalizeColor c) B = isStalemate cfg c B"
    by (simp add: isCheckmate_eq isStalemate_eq isCheck_normalize allLegalMoves_normalize
          cong: if_cong)
  from check moves have "(isCheckmate cfg c B = Inr True \<longrightarrow>
       isCheck cfg c B = Inr True \<and> allLegalMoves cfg c B = Inr [])
   \<and> (isStalemate cfg c B = Inr True \<longrightarrow> isCheck cfg c B = Inr False)
   \<and> (\<exists>check mate stale. isCheck cfg c B = Inr check \<and> isCheckmate cfg c B = Inr mate
          \<and> isStalemate cfg c B = Inr stale)
   \<and> (\<exists>check moves. isCheck cfg c B = Inr check \<and> allLegalMoves cfg c B = Inr moves
          \<and> isCheckmate cfg c B = Inr (check \<and> moves = [])
          \<and> isStalemate cfg c B = Inr (\<not> check \<and> moves = []))"
    by (auto simp: isCheckmate_eq isStalemate_eq)
  with n show ?thesis by simp
qed

theorem classifier_implications_witness:
  "isCheckmate initialConfig ''b''
     [(''A1'', \<lparr>ptype = ''k'', color = ''b''\<rparr>), (''A4'', \<lparr>ptype = ''r'', color = ''w''\<rparr>),
      (''C2'', \<lparr>ptype = ''k'', color = ''w''\<rparr>)] = Inr True
   \<and> isCheck initialConfig ''b''
     [(''A1'', \<lparr>ptype = ''k'', color = ''b''\<rparr>), (''A4'', \<lparr>ptype = ''r'', color = ''w''\<rparr>),
      (''C2'', \<lparr>ptype = ''k'', color = ''w''\<rparr>)] = Inr True
   \<and> allLegalMoves initialConfig ''b''
     [(''A1'', \<lparr>ptype = ''k'', color = ''b''\<rparr>), (''A4'', \<lparr>ptype = ''r'', color = ''w''\<rparr>),
      (''C2'', \<lparr>ptype = ''k'', color = ''w''\<rparr>)] = Inr []
   \<and> isStalemate initialConfig ''b''
     [(''A1'', \<lparr>ptype = ''k'', color = ''b''\<rparr>), (''B3'', \<lparr>ptype = ''b'', color = ''w''\<rparr>),
      (''C2'', \<lparr>ptype = ''k'', color = ''w''\<rparr>)] = Inr True
   \<and> isCheck initialConfig ''b''
     [(''A1'', \<lparr>ptype = ''k'', color = ''b''\<rparr>), (''B3'', \<lparr>ptype = ''b'', color = ''w''\<rparr>),
      (''C2'', \<lparr>ptype = ''k'', color = ''w''\<rparr>)] = Inr False"
proof -
  let ?M = "[(''A1'', \<lparr>ptype = ''k'', color = ''b''\<rparr>), (''A4'', \<lparr>ptype = ''r'', color = ''w''\<rparr>),
      (''C2'', \<lparr>ptype = ''k'', color = ''w''\<rparr>)]"
  let ?S = "[(''A1'', \<lparr>ptype = ''k'', color = ''b''\<rparr>), (''B3'', \<lparr>ptype = ''b'', color = ''w''\<rparr>),
      (''C2'', \<lparr>ptype = ''k'', color = ''w''\<rparr>)]"
  have mate: "isCheckmate initialConfig ''b'' ?M = Inr True"
    by code_simp
  have stale: "isStalemate initialConfig ''b'' ?S = Inr True"
    by code_simp
  from classifier_implications [of initialConfig "''b''" ?M]
    classifier_implications [of initialConfig "''b''" ?S] mate stale
  show ?thesis by simp
qed

section \<open>Boards without a king\<close>

lemma hasKing_iff: "hasKing b c \<longleftrightarrow> (\<exists>p \<in> snd ` set b. ptype p = ''k'' \<and> color p = c)"
  by (force simp: hasKing_def list_ex_iff)

lemma lastKing_no: "\<not> hasKing b c \<Longrightarrow> lastKing b c acc = acc"
  by (induction b arbitrary: acc) (auto simp: hasKing_def split: if_splits)

lemma firstKing_no: "\<not> hasKing b c \<Longrightarrow> firstKing b c = None"
  by (induction b) (auto simp: hasKing_def split: if_splits)

lemma set_update_subset: "set (AList.update k v al) \<subseteq> insert (k, v) (set al)"
  by (induction al) auto

lemma set_delete_subset: "set (AList.delete k al) \<subseteq> set al"
  by (auto simp: AList.delete_eq)

lemma applyMove_pieces:
  assumes "applyMove b from to = Some nb"
  shows "snd ` set nb \<subseteq> snd ` set b"
proof
  fix x assume "x \<in> snd ` set nb"
  then obtain k where k: "(k, x) \<in> set nb" by auto
  from assms obtain p where p: "map_of b from = Some p"
    and nb: "nb = AList.update to p (AList.delete from b)"
    by (auto simp: applyMove_eq split: option.splits)
  from p have fp: "(from, p) \<in> set b" by (rule map_of_SomeD)
  from k nb set_update_subset [of to p "AList.delete from b"]
  have "(k, x) = (to, p) \<or> (k, x) \<in> set (AList.delete from b)" by auto
  with set_delete_subset [of "from" b] have "(k, x) = (to, p) \<or> (k, x) \<in> set b" by auto
  with fp show "x \<in> snd ` set b" by force
qed

lemma hasKing_applyMove:
  assumes "applyMove b from to = Some nb" and "hasKing nb c"
  shows "hasKing b c"
proof -
  from assms(2) obtain p where p: "p \<in> snd ` set nb" and k: "ptype p = ''k'' \<and> color p = c"
    unfolding hasKing_iff ..
  from p applyMove_pieces [OF assms(1)] have "p \<in> snd ` set b" ..
  with k show ?thesis
    unfolding hasKing_iff ..
qed

lemma kingsAreSeparated_kings:
  "kingsAreSeparated cfg b \<Longrightarrow> hasKing b ''w'' \<and> hasKing b ''b''"
proof (rule ccontr)
  assume sep: "kingsAreSeparated cfg b" and "\<not> (hasKing b ''w'' \<and> hasKing b ''b'')"
  then consider "\<not> hasKing b ''w''" | "\<not> hasKing b ''b''" by blast
  then show False
  proof cases
    case 1
    then have "lastKing b ''w'' None = None" by (rule lastKing_no)
    with sep show False by (simp add: kingsAreSeparated_def)
  next
    case 2
    then have "lastKing b ''b'' None = None" by (rule lastKing_no)
    with sep show False by (simp add: kingsAreSeparated_def split: option.splits)
  qed
qed

lemma legalAmong_rejects:
  assumes "map_of board from \<noteq> None"
    and "\<And>to nb. applyMove board from to = Some nb \<Longrightarrow> \<not> kingsAreSeparated cfg nb"
  shows "legalAmong cfg p from board candidate = Inr []"
proof (induction candidate)
  case Nil
  show ?case by simp
next
  case (Cons to candidate)
  from assms(1) obtain nb where n: "applyMove board from to = Some nb"
    by (auto simp: applyMove_eq)
  with assms(2) have "\<not> kingsAreSeparated cfg nb" by blast
  with n Cons show ?case by simp
qed

lemma getLegalMoves_no_king:
  assumes "\<not> hasKing board ''w'' \<or> \<not> hasKing board ''b''" and "map_of board from \<noteq> None"
  shows "getLegalMoves cfg piece from board = Inr []"
proof -
  let ?p = "\<lparr>ptype = normalizePieceType (ptype piece), color = normalizeColor (color piece)\<rparr>"
  have rej: "\<not> kingsAreSeparated cfg nb" if nb: "applyMove board from to = Some nb" for to nb
  proof
    assume "kingsAreSeparated cfg nb"
    then have "hasKing nb ''w''" and "hasKing nb ''b''"
      using kingsAreSeparated_kings by blast+
    then have "hasKing board ''w''" and "hasKing board ''b''"
      using hasKing_applyMove [OF nb] by blast+
    with assms(1) show False by blast
  qed
  obtain candidate where "pseudoMovesForPiece cfg ?p from board = Inr candidate"
    using pseudoMoves_returns by blast
  moreover have "legalAmong cfg ?p from board candidate = Inr []"
    using assms(2) rej by (rule legalAmong_rejects)
  ultimately show ?thesis
    by (simp add: getLegalMoves_def)
qed

lemma movesOfEntries_no_king:
  assumes "\<not> hasKing board ''w'' \<or> \<not> hasKing board ''b''"
  shows "set es \<subseteq> set board \<Longrightarrow> movesOfEntries cfg c board es = Inr []"
proof (induction es)
  case Nil
  show ?case by simp
next
  case (Cons e es)
  obtain sq p where e: "e = (sq, p)" by (cases e)
  with Cons.prems have "(sq, p) \<in> set board" by simp
  then have "map_of board sq \<noteq> None"
    by (metis map_of_eq_None_iff image_eqI fst_conv)
  with assms have "getLegalMoves cfg p sq board = Inr []"
    by (rule getLegalMoves_no_king)
  with Cons e show ?case by simp
qed

lemma isCheck_no_king: "\<not> hasKing board (normalizeColor c) \<Longrightarrow> isCheck cfg c board = Inr False"
  by (simp add: isCheck_def firstKing_no)

text \<open>
  C10, amended. On a board that lacks the white or the black king: \<open>isCheck\<close> is false
  for a colour that has no king; \<open>getLegalMoves\<close> returns the empty list for every
  piece and every square that holds a piece of the board, so \<open>allLegalMoves\<close> is empty
  and a colour without king is reported as stalemated; on the empty board both colours
  are.
\<close>

theorem king_missing:
  assumes "\<not> hasKing board ''w'' \<or> \<not> hasKing board ''b''"
  shows "(\<not> hasKing board (normalizeColor c) \<longrightarrow> isCheck cfg c board = Inr False)
    \<and> (Map_get board from \<noteq> None \<longrightarrow> getLegalMoves cfg piece from board = Inr [])
    \<and> allLegalMoves cfg c board = Inr []
    \<and> (\<not> hasKing board (normalizeColor c) \<longrightarrow> isStalemate cfg c board = Inr True)
    \<and> isStalemate cfg ''w'' createEmptyBoard = Inr True
    \<and> isStalemate cfg ''b'' createEmptyBoard = Inr True"
proof -
  have moves: "allLegalMoves cfg c board = Inr []"
    using movesOfEntries_no_king [OF assms, of board] by (simp add: allLegalMoves_def)
  have empty: "isStalemate cfg col createEmptyBoard = Inr True" for col
    by (simp add: isStalemate_eq isCheck_def createEmptyBoard_def allLegalMoves_def)
  have check: "\<not> hasKing board (normalizeColor c) \<longrightarrow> isCheck cfg c board = Inr False"
    using isCheck_no_king by blast
  have legal: "Map_get board from \<noteq> None \<longrightarrow> getLegalMoves cfg piece from board = Inr []"
    using getLegalMoves_no_king [OF assms] by (simp add: Map_get_def)
  have stale: "\<not> hasKing board (normalizeColor c) \<longrightarrow> isStalemate cfg c board = Inr True"
    using check moves by (simp add: isStalemate_eq)
  from check legal moves stale empty show ?thesis
    by blast
qed

theorem king_missing_witness:
  "pseudoMovesForPiece initialConfig \<lparr>ptype = ''r'', color = ''w''\<rparr> ''B3''
     [(''A1'', \<lparr>ptype = ''k'', color = ''w''\<rparr>), (''B3'', \<lparr>ptype = ''r'', color = ''w''\<rparr>)]
     = Inr [''C3'', ''D3'', ''A3'', ''B4'', ''B2'', ''B1'']
   \<and> getLegalMoves initialConfig \<lparr>ptype = ''r'', color = ''w''\<rparr> ''B3''
     [(''A1'', \<lparr>ptype = ''k'', color = ''w''\<rparr>), (''B3'', \<lparr>ptype = ''r'', color = ''w''\<rparr>)]
     = Inr []
   \<and> isCheck initialConfig ''b''
     [(''A1'', \<lparr>ptype = ''k'', color = ''w''\<rparr>), (''B3'', \<lparr>ptype = ''r'', color = ''w''\<rparr>)]
     = Inr False
   \<and> isStalemate initialConfig ''b''
     [(''A1'', \<lparr>ptype = ''k'', color = ''w''\<rparr>), (''B3'', \<lparr>ptype = ''r'', color = ''w''\<rparr>)]
     = Inr True
   \<and> isStalemate initialConfig ''w'' createEmptyBoard = Inr True"
proof -
  let ?B = "[(''A1'', \<lparr>ptype = ''k'', color = ''w''\<rparr>), (''B3'', \<lparr>ptype = ''r'', color = ''w''\<rparr>)]"
  have k: "\<not> hasKing ?B ''w'' \<or> \<not> hasKing ?B ''b''"
    by code_simp
  have n: "\<not> hasKing ?B (normalizeColor ''b'')"
    by code_simp
  have g: "Map_get ?B ''B3'' \<noteq> None"
    by code_simp
  have c: "pseudoMovesForPiece initialConfig \<lparr>ptype = ''r'', color = ''w''\<rparr> ''B3'' ?B
     = Inr [''C3'', ''D3'', ''A3'', ''B4'', ''B2'', ''B1'']"
    by code_simp
  from king_missing [OF k, of "''b''" initialConfig "''B3''" "\<lparr>ptype = ''r'', color = ''w''\<rparr>"]
    n g c show ?thesis
    by simp
qed

text \<open>
  C10, as stated, fails for a square that holds no piece, on the empty board as on any
  other: for a rook and the empty square A1, the first candidate B1 makes \<open>applyMove\<close>
  store \<open>undefined\<close>, and \<open>kingsAreSeparated\<close> raises a TypeError instead of
  returning false.
\<close>

theorem getLegalMoves_empty_square:
  "pseudoMovesForPiece initialConfig \<lparr>ptype = ''r'', color = ''w''\<rparr> ''A1'' createEmptyBoard
     = Inr [''B1'', ''C1'', ''D1'', ''A2'', ''A3'', ''A4'']
   \<and> applyMove createEmptyBoard ''A1'' ''B1'' = None
   \<and> getLegalMoves initialConfig \<lparr>ptype = ''r'', color = ''w''\<rparr> ''A1'' createEmptyBoard
     = Inl TypeError"
  by code_simp

section \<open>Position generator: every run returns\<close>

lemma Math_random_range: "0 \<le> Math_random rnd i \<and> Math_random rnd i < 1"
  by (simp add: Math_random_def frac_lt_1)

lemma pickRandom_some:
  assumes "arr \<noteq> []"
  shows "\<exists>x. pickRandom arr (Math_random rnd i) = Some x \<and> x \<in> set arr"
proof -
  let ?u = "Math_random rnd i" and ?n = "length arr"
  from assms have n: "0 < ?n" by simp
  have u: "0 \<le> ?u" "?u < 1" using Math_random_range by blast+
  from u have "0 \<le> ?u * of_nat ?n" by simp
  then have lo: "0 \<le> randomInt ?u ?n" by (simp add: randomInt_def)
  from u n have "?u * of_nat ?n < of_nat ?n" by simp
  then have "\<lfloor>?u * of_nat ?n\<rfloor> < int ?n"
    by (simp add: floor_less_iff)
  then have hi: "randomInt ?u ?n < int ?n" by (simp add: randomInt_def)
  from lo hi have "nat (randomInt ?u ?n) < ?n" by simp
  then have "arr ! nat (randomInt ?u ?n) \<in> set arr" by (rule nth_mem)
  with lo hi show ?thesis by (simp add: pickRandom_def Let_def)
qed

lemma placePieces_returns:
  "\<exists>placed j. placePieces pieces board available rnd i = Inr (placed, j)"
proof (induction pieces arbitrary: board available i)
  case Nil
  show ?case by simp
next
  case (Cons up ups)
  show ?case
  proof (cases "available = []")
    case True
    then show ?thesis by simp
  next
    case False
    then obtain sq where "pickRandom available (Math_random rnd i) = Some sq"
      using pickRandom_some by blast
    with False Cons show ?thesis by simp
  qed
qed

lemma upto_1_4: "[1 .. 4::int] = [1, 2, 3, 4]"
  by code_simp

lemma upt_0_4: "[0 ..< 4] = [0, 1, 2, 3]"
  by code_simp

lemma allSquares_nonempty: "allSquares cfg \<noteq> []"
  by (simp add: allSquares_def upto_1_4 upt_0_4)

lemma isCheckmate_returns: "\<exists>v. isCheckmate cfg col board = Inr v"
proof -
  obtain check where check: "isCheck cfg col board = Inr check"
    using isCheck_returns by blast
  obtain moves where moves: "allLegalMoves cfg col board = Inr moves"
    using allLegalMoves_returns by blast
  from check moves show ?thesis
    by (auto simp: isCheckmate_eq)
qed

lemma validated_returns: "\<exists>res. validated cfg turn allow board j = Inr (res, j)"
proof -
  obtain c1 where c1: "isCheck cfg turn board = Inr c1"
    using isCheck_returns by blast
  obtain c2 where c2: "isCheck cfg (oppositeColor turn) board = Inr c2"
    using isCheck_returns by blast
  obtain m1 where m1: "isCheckmate cfg ''w'' board = Inr m1"
    using isCheckmate_returns by blast
  obtain m2 where m2: "isCheckmate cfg ''b'' board = Inr m2"
    using isCheckmate_returns by blast
  from c1 c2 m1 m2 show ?thesis
    by (auto simp: validated_def)
qed

lemma validated_success:
  assumes "validated cfg turn False board j = Inr (Some b, k)"
  shows "b = board \<and> kingsAreSeparated cfg board \<and> isCheck cfg turn board = Inr False
     \<and> isCheck cfg (oppositeColor turn) board = Inr False
     \<and> isCheckmate cfg ''w'' board = Inr False \<and> isCheckmate cfg ''b'' board = Inr False"
proof -
  obtain c1 where c1: "isCheck cfg turn board = Inr c1"
    using isCheck_returns by blast
  obtain c2 where c2: "isCheck cfg (oppositeColor turn) board = Inr c2"
    using isCheck_returns by blast
  obtain m1 where m1: "isCheckmate cfg ''w'' board = Inr m1"
    using isCheckmate_returns by blast
  obtain m2 where m2: "isCheckmate cfg ''b'' board = Inr m2"
    using isCheckmate_returns by blast
  from assms c1 c2 m1 m2 show ?thesis
    by (auto simp: validated_def split: if_splits)
qed

lemma attempt_eq:
  "attempt cfg pieces turn allow rnd i =
    (case pickRandom (allSquares cfg) (Math_random rnd i) of
       None \<Rightarrow> Inl UndefinedKey
     | Some wkSq \<Rightarrow>
        (let nonAdjacentToWk = filter (\<lambda>sq. \<not> squaresAreAdjacent cfg wkSq sq)
                                  (removeFromArray (allSquares cfg) wkSq)
         in
         if nonAdjacentToWk = [] then Inr (None, i + 1)
         else case pickRandom nonAdjacentToWk (Math_random rnd (i + 1)) of
           None \<Rightarrow> Inl UndefinedKey
         | Some bkSq \<Rightarrow>
             andThen (placePieces pieces
                 (Map_set (Map_set createEmptyBoard wkSq \<lparr>ptype = ''k'', color = ''w''\<rparr>)
                           bkSq \<lparr>ptype = ''k'', color = ''b''\<rparr>)
                 (removeFromArray (removeFromArray (allSquares cfg) wkSq) bkSq) rnd (i + 2))
               (\<lambda>(placed, j).
                  case placed of
                    None \<Rightarrow> Inr (None, j)
                  | Some board \<Rightarrow> validated cfg turn allow board j)))"
  unfolding attempt_def Let_def
  by (simp cong: option.case_cong if_cong)


lemma attempt_returns: "\<exists>res j. attempt cfg pieces turn allow rnd i = Inr (res, j)"
proof -
  obtain wkSq where wk: "pickRandom (allSquares cfg) (Math_random rnd i) = Some wkSq"
    using pickRandom_some [OF allSquares_nonempty] by blast
  let ?non = "filter (\<lambda>sq. \<not> squaresAreAdjacent cfg wkSq sq)
                (removeFromArray (allSquares cfg) wkSq)"
  show ?thesis
  proof (cases "?non = []")
    case True
    with wk show ?thesis by (simp add: attempt_eq)
  next
    case False
    then obtain bkSq where bk: "pickRandom ?non (Math_random rnd (i + 1)) = Some bkSq"
      using pickRandom_some by blast
    let ?board = "Map_set (Map_set createEmptyBoard wkSq \<lparr>ptype = ''k'', color = ''w''\<rparr>)
                           bkSq \<lparr>ptype = ''k'', color = ''b''\<rparr>"
    let ?avail = "removeFromArray (removeFromArray (allSquares cfg) wkSq) bkSq"
    obtain placed j where pl: "placePieces pieces ?board ?avail rnd (i + 2) = Inr (placed, j)"
      using placePieces_returns by blast
    show ?thesis
    proof (cases placed)
      case None
      with wk False bk pl show ?thesis by (simp add: attempt_eq)
    next
      case (Some board)
      obtain res where "validated cfg turn allow board j = Inr (res, j)"
        using validated_returns by blast
      with Some wk False bk pl show ?thesis by (simp add: attempt_eq)
    qed
  qed
qed

lemma attempt_success:
  assumes "attempt cfg pieces turn False rnd i = Inr (Some b, j)"
  shows "kingsAreSeparated cfg b \<and> isCheck cfg turn b = Inr False
     \<and> isCheck cfg (oppositeColor turn) b = Inr False
     \<and> isCheckmate cfg ''w'' b = Inr False \<and> isCheckmate cfg ''b'' b = Inr False"
proof -
  from assms obtain board k where "validated cfg turn False board k = Inr (Some b, j)"
    by (auto simp: attempt_eq Let_def andThen_eq_Inr split: option.splits if_splits)
  from validated_success [OF this] show ?thesis by simp
qed

lemma attempts_returns: "\<exists>board. attempts cfg pieces turn allow rnd n i = Inr board"
proof (induction n arbitrary: i)
  case 0
  show ?case by simp
next
  case (Suc n)
  obtain res j where a: "attempt cfg pieces turn allow rnd i = Inr (res, j)"
    using attempt_returns by blast
  show ?case
  proof (cases res)
    case None
    with a Suc [of j] show ?thesis by simp
  next
    case (Some board)
    with a show ?thesis by simp
  qed
qed

lemma attempts_result:
  "attempts cfg pieces turn allow rnd n i = Inr board \<Longrightarrow>
     board = createEmptyBoard \<or> (\<exists>k j. attempt cfg pieces turn allow rnd k = Inr (Some board, j))"
proof (induction n arbitrary: i)
  case 0
  then show ?case by simp
next
  case (Suc n)
  obtain res j where a: "attempt cfg pieces turn allow rnd i = Inr (res, j)"
    using attempt_returns by blast
  show ?case
  proof (cases res)
    case None
    with a Suc.prems have "attempts cfg pieces turn allow rnd n j = Inr board" by simp
    then show ?thesis by (rule Suc.IH)
  next
    case (Some b)
    with a Suc.prems have "b = board" by simp
    with a Some show ?thesis by blast
  qed
qed

lemma attempts_exhausted:
  "exhausted cfg pieces turn allow rnd n i \<Longrightarrow>
     attempts cfg pieces turn allow rnd n i = Inr createEmptyBoard"
proof (induction n arbitrary: i)
  case 0
  show ?case by simp
next
  case (Suc n)
  obtain res j where a: "attempt cfg pieces turn allow rnd i = Inr (res, j)"
    using attempt_returns by blast
  with Suc.prems have res: "res = None" and ex: "exhausted cfg pieces turn allow rnd n j"
    by (cases res; simp)+
  from Suc.IH [OF ex] a res show ?case by simp
qed

text \<open>
  C9. The generator always returns a pair of a board and the requested turn (the
  normalised \<open>turn\<close> option, white when it is missing) and raises nothing; when all the
  passes the budget allows end without a position, the board it returns is the empty
  board.
\<close>

theorem generation_exhausted:
  "(\<exists>board. generateStartingPosition cfg pieces optTurn maxAttempts allow rnd
        = Inr (board, requestedTurn optTurn))
   \<and> (exhausted cfg pieces (requestedTurn optTurn) allow rnd maxAttempts 0 \<longrightarrow>
        generateStartingPosition cfg pieces optTurn maxAttempts allow rnd
          = Inr (createEmptyBoard, requestedTurn optTurn))"
proof -
  obtain board where
    "attempts cfg pieces (requestedTurn optTurn) allow rnd maxAttempts 0 = Inr board"
    using attempts_returns by blast
  then show ?thesis
    using attempts_exhausted [of cfg pieces "requestedTurn optTurn" allow rnd maxAttempts 0]
    by (auto simp: generateStartingPosition_def Let_def)
qed

theorem generation_exhausted_witness:
  "exhausted initialConfig (replicate 15 \<lparr>ptype = ''rook'', color = ''w''\<rparr>) (requestedTurn ''Black'')
      False (\<lambda>i. 1 / 2) 2 0
   \<and> requestedTurn ''Black'' = ''b''
   \<and> generateStartingPosition initialConfig (replicate 15 \<lparr>ptype = ''rook'', color = ''w''\<rparr>)
        ''Black'' 2 False (\<lambda>i. 1 / 2) = Inr ([], ''b'')"
proof -
  have e: "exhausted initialConfig (replicate 15 \<lparr>ptype = ''rook'', color = ''w''\<rparr>)
      (requestedTurn ''Black'') False (\<lambda>i. 1 / 2) 2 0"
    by code_simp
  have t: "requestedTurn ''Black'' = ''b''"
    by code_simp
  from generation_exhausted [of initialConfig "replicate 15 \<lparr>ptype = ''rook'', color = ''w''\<rparr>"
      "''Black''" 2 False "\<lambda>i. 1 / 2"] e t
  show ?thesis by (simp add: createEmptyBoard_def)
qed

lemma lastKing_Some:
  "lastKing b c acc = Some sq \<Longrightarrow>
     acc = Some sq \<or> (\<exists>p. (sq, p) \<in> set b \<and> ptype p = ''k'' \<and> color p = c)"
proof (induction b arbitrary: acc)
  case Nil
  then show ?case by simp
next
  case (Cons e b)
  obtain k p where e: "e = (k, p)" by (cases e)
  show ?case
  proof (cases "ptype p = ''k'' \<and> color p = c")
    case True
    with Cons.prems e have "lastKing b c (Some k) = Some sq" by simp
    from Cons.IH [OF this] True e show ?thesis by auto
  next
    case False
    with Cons.prems e have "lastKing b c acc = Some sq" by auto
    from Cons.IH [OF this] show ?thesis by auto
  qed
qed

lemma kingsAreSeparated_explicit:
  assumes "kingsAreSeparated cfg b"
  shows "\<exists>wk bk pw pb. (wk, pw) \<in> set b \<and> ptype pw = ''k'' \<and> color pw = ''w''
     \<and> (bk, pb) \<in> set b \<and> ptype pb = ''k'' \<and> color pb = ''b''
     \<and> \<not> squaresAreAdjacent cfg wk bk"
proof -
  from assms obtain wk bk where wk: "lastKing b ''w'' None = Some wk"
    and bk: "lastKing b ''b'' None = Some bk" and adj: "\<not> squaresAreAdjacent cfg wk bk"
    by (auto simp: kingsAreSeparated_def split: option.splits if_splits)
  from lastKing_Some [OF wk] obtain pw where
    "(wk, pw) \<in> set b \<and> ptype pw = ''k'' \<and> color pw = ''w''" by auto
  moreover from lastKing_Some [OF bk] obtain pb where
    "(bk, pb) \<in> set b \<and> ptype pb = ''k'' \<and> color pb = ''b''" by auto
  ultimately show ?thesis using adj by blast
qed

lemma oppositeColor_literals: "oppositeColor ''w'' = ''b''" "oppositeColor ''b'' = ''w''"
  by code_simp+

section \<open>Legality filter: the simulated board\<close>

lemma countKings_Nil [simp]: "countKings [] c = 0"
  by (simp add: countKings_def)

lemma countKings_Cons [simp]:
  "countKings (e # b) c = (if isKingOf c e then Suc (countKings b c) else countKings b c)"
  by (simp add: countKings_def)

lemma countKings_update:
  "countKings (AList.update k v al) c \<le> countKings al c + (if isKingOf c (k, v) then 1 else 0)"
  by (induction al) (auto simp: isKingOf_def)

lemma countKings_delete_le: "countKings (AList.delete k al) c \<le> countKings al c"
  by (induction al) (auto simp: isKingOf_def)

lemma countKings_delete:
  "map_of al k = Some p \<Longrightarrow>
     countKings (AList.delete k al) c + (if isKingOf c (k, p) then 1 else 0) \<le> countKings al c"
proof (induction al)
  case Nil
  then show ?case by simp
next
  case (Cons e al)
  obtain k' v' where e: "e = (k', v')" by (cases e)
  show ?case
  proof (cases "k' = k")
    case True
    with Cons.prems e have "v' = p" by simp
    with True e countKings_delete_le [of k al c] show ?thesis
      by (auto simp: isKingOf_def)
  next
    case False
    with Cons.prems e have "map_of al k = Some p" by simp
    from Cons.IH [OF this] False e show ?thesis
      by (auto simp: isKingOf_def)
  qed
qed

lemma countKings_applyMove:
  assumes "applyMove b from to = Some nb"
  shows "countKings nb c \<le> countKings b c"
proof -
  from assms obtain p where p: "map_of b from = Some p"
    and nb: "nb = AList.update to p (AList.delete from b)"
    by (auto simp: applyMove_eq split: option.splits)
  have "countKings nb c \<le> countKings (AList.delete from b) c + (if isKingOf c (to, p) then 1 else 0)"
    unfolding nb by (rule countKings_update)
  also have "\<dots> = countKings (AList.delete from b) c + (if isKingOf c (from, p) then 1 else 0)"
    by (simp add: isKingOf_def)
  also have "\<dots> \<le> countKings b c"
    using p by (rule countKings_delete)
  finally show ?thesis .
qed

lemma countKings_pos: "hasKing b c \<Longrightarrow> 0 < countKings b c"
  by (induction b) (auto simp: hasKing_def isKingOf_def)

lemma firstKing_unique:
  "countKings b c \<le> 1 \<Longrightarrow> (k, p) \<in> set b \<Longrightarrow> ptype p = ''k'' \<Longrightarrow> color p = c \<Longrightarrow>
     firstKing b c = Some k"
proof (induction b)
  case Nil
  then show ?case by simp
next
  case (Cons e b)
  obtain k' p' where e: "e = (k', p')" by (cases e)
  show ?case
  proof (cases "isKingOf c e")
    case True
    with Cons.prems(1) have none: "countKings b c = 0" by simp
    have "(k, p) \<notin> set b"
    proof
      assume "(k, p) \<in> set b"
      with Cons.prems(3,4) have "hasKing b c"
        by (auto simp: hasKing_def list_ex_iff)
      from countKings_pos [OF this] none show False by simp
    qed
    with Cons.prems(2) e have "k' = k" by simp
    with True e show ?thesis by (simp add: isKingOf_def)
  next
    case False
    with Cons.prems e have "countKings b c \<le> 1" and "(k, p) \<in> set b"
      by (auto simp: isKingOf_def)
    from Cons.IH [OF this Cons.prems(3,4)] False e show ?thesis
      by (auto simp: isKingOf_def)
  qed
qed

lemma legalAmong_member:
  assumes "legalAmong cfg p from board candidate = Inr legal" and "to \<in> set legal"
  shows "\<exists>nb. applyMove board from to = Some nb \<and> kingsAreSeparated cfg nb
     \<and> isCheck cfg (color p) nb = Inr False
     \<and> (ptype p = ''k'' \<longrightarrow> isSquareAttacked cfg to (oppositeColor (color p)) nb = Inr False)"
  using assms
proof (induction candidate arbitrary: legal)
  case Nil
  then show ?case by simp
next
  case (Cons t candidate)
  from Cons.prems(1) obtain nb where nb: "applyMove board from t = Some nb"
    by (auto split: option.splits)
  obtain chk where chk: "isCheck cfg (color p) nb = Inr chk"
    using isCheck_returns by blast
  obtain att where att: "isSquareAttacked cfg t (oppositeColor (color p)) nb = Inr att"
    using isSquareAttacked_returns by blast
  let ?keep = "kingsAreSeparated cfg nb \<and> \<not> chk \<and> \<not> (ptype p = ''k'' \<and> att)"
  show ?case
  proof (cases ?keep)
    case True
    with Cons.prems(1) nb chk att obtain rest where
      rest: "legalAmong cfg p from board candidate = Inr rest" and legal: "legal = t # rest"
      by (auto simp: andThen_eq_Inr split: if_splits)
    show ?thesis
    proof (cases "to = t")
      case True
      with \<open>?keep\<close> nb chk att show ?thesis by auto
    next
      case False
      with Cons.prems(2) legal have "to \<in> set rest" by simp
      with Cons.IH [OF rest] show ?thesis by blast
    qed
  next
    case False
    with Cons.prems(1) nb chk att have "legalAmong cfg p from board candidate = Inr legal"
      by (auto simp: andThen_eq_Inr split: if_splits)
    from Cons.IH [OF this Cons.prems(2)] show ?thesis .
  qed
qed

lemma distinct_applyMove:
  assumes "applyMove b from to = Some nb" and "distinct (map fst b)"
  shows "distinct (map fst nb)"
proof -
  from assms(1) obtain p where nb: "nb = AList.update to p (AList.delete from b)"
    by (auto simp: applyMove_eq split: option.splits)
  from assms(2) show ?thesis
    unfolding nb by (intro distinct_update distinct_delete)
qed

lemma normalizeColor_literals: "normalizeColor ''w'' = ''w''" "normalizeColor ''b'' = ''b''"
  by code_simp+

lemma oppositeColor_normalize: "oppositeColor (normalizeColor c) = oppositeColor c"
  by (simp add: oppositeColor_def normalizeColor_idem)

lemma kingsAreSeparated_lastKing:
  assumes "kingsAreSeparated cfg b"
  shows "\<exists>wk bk. lastKing b ''w'' None = Some wk \<and> lastKing b ''b'' None = Some bk
     \<and> wk \<noteq> [] \<and> bk \<noteq> [] \<and> \<not> squaresAreAdjacent cfg wk bk"
  using assms by (auto simp: kingsAreSeparated_def split: option.splits if_splits)

lemma distinct_keys_value:
  assumes "distinct (map fst b)" and "(k, v) \<in> set b" and "(k, v') \<in> set b"
  shows "v = v'"
proof -
  from assms(1,2) have "map_of b k = Some v" by (rule map_of_is_SomeI)
  moreover from assms(1,3) have "map_of b k = Some v'" by (rule map_of_is_SomeI)
  ultimately show ?thesis by simp
qed

lemma separated_distinct_squares:
  assumes "kingsAreSeparated cfg b" and "distinct (map fst b)"
  shows "\<exists>wk bk pw pb. wk \<noteq> bk
     \<and> (wk, pw) \<in> set b \<and> ptype pw = ''k'' \<and> color pw = ''w''
     \<and> (bk, pb) \<in> set b \<and> ptype pb = ''k'' \<and> color pb = ''b''
     \<and> \<not> squaresAreAdjacent cfg wk bk"
proof -
  from kingsAreSeparated_explicit [OF assms(1)] obtain wk bk pw pb where
    w: "(wk, pw) \<in> set b" "ptype pw = ''k''" "color pw = ''w''"
    and b: "(bk, pb) \<in> set b" "ptype pb = ''k''" "color pb = ''b''"
    and adj: "\<not> squaresAreAdjacent cfg wk bk"
    by blast
  have "wk \<noteq> bk"
  proof
    assume "wk = bk"
    with w(1) b(1) assms(2) have "pw = pb" by (auto dest: distinct_keys_value)
    with w(3) b(3) show False by simp
  qed
  with w b adj show ?thesis by blast
qed

lemma unchecked_king:
  assumes sep: "kingsAreSeparated cfg b" and one: "countKings b c \<le> 1"
    and c: "c = ''w'' \<or> c = ''b''"
    and chk: "isCheck cfg c b = Inr False"
    and king: "(k, p) \<in> set b" "ptype p = ''k''" "color p = c"
  shows "isSquareAttacked cfg k (oppositeColor c) b = Inr False"
proof -
  from kingsAreSeparated_lastKing [OF sep] c obtain kc where
    last: "lastKing b c None = Some kc" and ne: "kc \<noteq> []"
    by auto
  from lastKing_Some [OF last] obtain pc where
    "(kc, pc) \<in> set b" "ptype pc = ''k''" "color pc = c" by auto
  with one have "firstKing b c = Some kc" by (rule firstKing_unique)
  moreover from one king have "firstKing b c = Some k" by (rule firstKing_unique)
  ultimately have first: "firstKing b c = Some k" and "k \<noteq> []" using ne by simp_all
  have n: "normalizeColor c = c"
    using c by (auto simp: normalizeColor_literals)
  from chk first \<open>k \<noteq> []\<close> n show ?thesis
    by (simp add: isCheck_def)
qed


text \<open>
  C4. On a board (a \<open>Map\<close>: distinct keys) with exactly one white and one black king,
  for a white or black piece standing on \<open>from\<close> and a destination \<open>to\<close> returned by
  \<open>getLegalMoves\<close>: the simulated board exists, still has one king of each colour, the
  two kings stand on distinct squares that are not adjacent, no king of the mover's
  colour is attacked by the opposite colour, and if the piece is a king its destination
  is not attacked.
\<close>

theorem legal_move_keeps_invariants:
  assumes keys: "distinct (map fst board)"
    and kw: "countKings board ''w'' = 1" and kb: "countKings board ''b'' = 1"
    and at: "Map_get board from = Some piece"
    and col: "normalizeColor (color piece) = ''w'' \<or> normalizeColor (color piece) = ''b''"
    and legal: "getLegalMoves cfg piece from board = Inr legal" and to: "to \<in> set legal"
  shows "\<exists>nb. applyMove board from to = Some nb
     \<and> countKings nb ''w'' = 1 \<and> countKings nb ''b'' = 1
     \<and> (\<exists>wk bk pw pb. wk \<noteq> bk
           \<and> (wk, pw) \<in> set nb \<and> ptype pw = ''k'' \<and> color pw = ''w''
           \<and> (bk, pb) \<in> set nb \<and> ptype pb = ''k'' \<and> color pb = ''b''
           \<and> \<not> squaresAreAdjacent cfg wk bk)
     \<and> (\<forall>k p. (k, p) \<in> set nb \<and> ptype p = ''k'' \<and> color p = normalizeColor (color piece)
           \<longrightarrow> isSquareAttacked cfg k (oppositeColor (color piece)) nb = Inr False)
     \<and> (normalizePieceType (ptype piece) = ''k''
           \<longrightarrow> isSquareAttacked cfg to (oppositeColor (color piece)) nb = Inr False)"
proof -
  let ?c = "normalizeColor (color piece)"
  let ?p = "\<lparr>ptype = normalizePieceType (ptype piece), color = ?c\<rparr>"
  from legal obtain candidate where "legalAmong cfg ?p from board candidate = Inr legal"
    by (auto simp: getLegalMoves_def Let_def andThen_eq_Inr)
  from legalAmong_member [OF this to] obtain nb where
    nb: "applyMove board from to = Some nb" and sep: "kingsAreSeparated cfg nb"
    and chk: "isCheck cfg ?c nb = Inr False"
    and att: "normalizePieceType (ptype piece) = ''k''
        \<longrightarrow> isSquareAttacked cfg to (oppositeColor ?c) nb = Inr False"
    by auto
  from kingsAreSeparated_kings [OF sep] have "0 < countKings nb ''w''" "0 < countKings nb ''b''"
    by (auto intro: countKings_pos)
  with countKings_applyMove [OF nb, of "''w''"] countKings_applyMove [OF nb, of "''b''"] kw kb
  have one: "countKings nb ''w'' = 1" "countKings nb ''b'' = 1"
    by simp_all
  with col have onec: "countKings nb ?c \<le> 1" by auto
  from distinct_applyMove [OF nb keys] have "distinct (map fst nb)" .
  from separated_distinct_squares [OF sep this]
  have squares: "\<exists>wk bk pw pb. wk \<noteq> bk
           \<and> (wk, pw) \<in> set nb \<and> ptype pw = ''k'' \<and> color pw = ''w''
           \<and> (bk, pb) \<in> set nb \<and> ptype pb = ''k'' \<and> color pb = ''b''
           \<and> \<not> squaresAreAdjacent cfg wk bk" .
  have safe: "\<forall>k p. (k, p) \<in> set nb \<and> ptype p = ''k'' \<and> color p = ?c
           \<longrightarrow> isSquareAttacked cfg k (oppositeColor (color piece)) nb = Inr False"
    using unchecked_king [OF sep onec col chk] by (auto simp: oppositeColor_normalize)
  from att have att': "normalizePieceType (ptype piece) = ''k''
        \<longrightarrow> isSquareAttacked cfg to (oppositeColor (color piece)) nb = Inr False"
    by (simp add: oppositeColor_normalize)
  from nb one squares safe att' show ?thesis by blast
qed

theorem legal_move_keeps_invariants_witness:
  "getLegalMoves initialConfig \<lparr>ptype = ''k'', color = ''w''\<rparr> ''D1''
     [(''A1'', \<lparr>ptype = ''r'', color = ''w''\<rparr>), (''A3'', \<lparr>ptype = ''b'', color = ''b''\<rparr>),
      (''D1'', \<lparr>ptype = ''k'', color = ''w''\<rparr>), (''D4'', \<lparr>ptype = ''k'', color = ''b''\<rparr>)]
     = Inr [''C2'', ''D2'']
   \<and> applyMove
     [(''A1'', \<lparr>ptype = ''r'', color = ''w''\<rparr>), (''A3'', \<lparr>ptype = ''b'', color = ''b''\<rparr>),
      (''D1'', \<lparr>ptype = ''k'', color = ''w''\<rparr>), (''D4'', \<lparr>ptype = ''k'', color = ''b''\<rparr>)]
     ''D1'' ''C2''
     = Some [(''A1'', \<lparr>ptype = ''r'', color = ''w''\<rparr>), (''A3'', \<lparr>ptype = ''b'', color = ''b''\<rparr>),
             (''D4'', \<lparr>ptype = ''k'', color = ''b''\<rparr>), (''C2'', \<lparr>ptype = ''k'', color = ''w''\<rparr>)]
   \<and> countKings
        [(''A1'', \<lparr>ptype = ''r'', color = ''w''\<rparr>), (''A3'', \<lparr>ptype = ''b'', color = ''b''\<rparr>),
         (''D4'', \<lparr>ptype = ''k'', color = ''b''\<rparr>), (''C2'', \<lparr>ptype = ''k'', color = ''w''\<rparr>)] ''w'' = 1
   \<and> isSquareAttacked initialConfig ''C2'' (oppositeColor ''w'')
        [(''A1'', \<lparr>ptype = ''r'', color = ''w''\<rparr>), (''A3'', \<lparr>ptype = ''b'', color = ''b''\<rparr>),
         (''D4'', \<lparr>ptype = ''k'', color = ''b''\<rparr>), (''C2'', \<lparr>ptype = ''k'', color = ''w''\<rparr>)]
       = Inr False"
proof -
  let ?B = "[(''A1'', \<lparr>ptype = ''r'', color = ''w''\<rparr>), (''A3'', \<lparr>ptype = ''b'', color = ''b''\<rparr>),
      (''D1'', \<lparr>ptype = ''k'', color = ''w''\<rparr>), (''D4'', \<lparr>ptype = ''k'', color = ''b''\<rparr>)]"
  let ?K = "\<lparr>ptype = ''k'', color = ''w''\<rparr>"
  have keys: "distinct (map fst ?B)" by simp
  have kw: "countKings ?B ''w'' = 1" by code_simp
  have kb: "countKings ?B ''b'' = 1" by code_simp
  have at: "Map_get ?B ''D1'' = Some ?K" by code_simp
  have col: "normalizeColor (color ?K) = ''w'' \<or> normalizeColor (color ?K) = ''b''"
    by code_simp
  have legal: "getLegalMoves initialConfig ?K ''D1'' ?B = Inr [''C2'', ''D2'']"
    by code_simp
  have to: "''C2'' \<in> set [''C2'', ''D2'']" by simp
  have nb: "applyMove ?B ''D1'' ''C2''
      = Some [(''A1'', \<lparr>ptype = ''r'', color = ''w''\<rparr>), (''A3'', \<lparr>ptype = ''b'', color = ''b''\<rparr>),
              (''D4'', \<lparr>ptype = ''k'', color = ''b''\<rparr>), (''C2'', \<lparr>ptype = ''k'', color = ''w''\<rparr>)]"
    by code_simp
  have t: "normalizePieceType (ptype ?K) = ''k''" by code_simp
  from legal_move_keeps_invariants [OF keys kw kb at col legal to] nb t legal
  show ?thesis by auto
qed

section \<open>Position generator: the returned position\<close>

lemma placePieces_kings:
  "placePieces pieces board available rnd i = Inr (Some b, j) \<Longrightarrow>
   list_all (\<lambda>up. normalizePieceType (ptype up) \<noteq> ''k'') pieces \<Longrightarrow>
     countKings b c \<le> countKings board c"
proof (induction pieces arbitrary: board available i)
  case Nil
  then show ?case by simp
next
  case (Cons up ups)
  from Cons.prems(1) obtain sq where
    rest: "placePieces ups
        (Map_set board sq \<lparr>ptype = normalizePieceType (ptype up), color = normalizeColor (color up)\<rparr>)
        (removeFromArray available sq) rnd (i + 1) = Inr (Some b, j)"
    by (auto split: if_splits option.splits)
  from Cons.prems(2) have up: "normalizePieceType (ptype up) \<noteq> ''k''"
    and ups: "list_all (\<lambda>up. normalizePieceType (ptype up) \<noteq> ''k'') ups"
    by simp_all
  have "countKings b c \<le> countKings
      (Map_set board sq \<lparr>ptype = normalizePieceType (ptype up), color = normalizeColor (color up)\<rparr>) c"
    using rest ups by (rule Cons.IH)
  also have "\<dots> \<le> countKings board c"
    using countKings_update [of sq
        "\<lparr>ptype = normalizePieceType (ptype up), color = normalizeColor (color up)\<rparr>" board c] up
    by (simp add: Map_set_def isKingOf_def)
  finally show ?case .
qed

lemma placePieces_distinct:
  "placePieces pieces board available rnd i = Inr (Some b, j) \<Longrightarrow> distinct (map fst board) \<Longrightarrow>
     distinct (map fst b)"
proof (induction pieces arbitrary: board available i)
  case Nil
  then show ?case by simp
next
  case (Cons up ups)
  from Cons.prems(1) obtain sq where
    rest: "placePieces ups
        (Map_set board sq \<lparr>ptype = normalizePieceType (ptype up), color = normalizeColor (color up)\<rparr>)
        (removeFromArray available sq) rnd (i + 1) = Inr (Some b, j)"
    by (auto split: if_splits option.splits)
  from Cons.prems(2) have "distinct (map fst
      (Map_set board sq \<lparr>ptype = normalizePieceType (ptype up), color = normalizeColor (color up)\<rparr>))"
    by (simp add: Map_set_def distinct_update)
  with rest show ?case by (rule Cons.IH)
qed

lemma attempt_placed:
  assumes "attempt cfg pieces turn False rnd i = Inr (Some b, j)"
  shows "\<exists>wkSq bkSq available k.
     placePieces pieces
       (Map_set (Map_set createEmptyBoard wkSq \<lparr>ptype = ''k'', color = ''w''\<rparr>)
          bkSq \<lparr>ptype = ''k'', color = ''b''\<rparr>) available rnd k = Inr (Some b, j)"
proof -
  from assms obtain wkSq bkSq available k board l where
    pl: "placePieces pieces
       (Map_set (Map_set createEmptyBoard wkSq \<lparr>ptype = ''k'', color = ''w''\<rparr>)
          bkSq \<lparr>ptype = ''k'', color = ''b''\<rparr>) available rnd k = Inr (Some board, l)"
    and v: "validated cfg turn False board l = Inr (Some b, j)"
    by (auto simp: attempt_eq Let_def andThen_eq_Inr split: option.splits if_splits)
  from validated_success [OF v] have b: "b = board" by simp
  have "l = j"
  proof -
    obtain res where "validated cfg turn False board l = Inr (res, l)"
      using validated_returns by blast
    with v show ?thesis by simp
  qed
  with pl b show ?thesis by blast
qed

lemma attempt_kings:
  assumes "attempt cfg pieces turn False rnd i = Inr (Some b, j)"
    and "list_all (\<lambda>up. normalizePieceType (ptype up) \<noteq> ''k'') pieces"
  shows "countKings b c \<le> 1"
proof -
  from attempt_placed [OF assms(1)] obtain wkSq bkSq available k where
    pl: "placePieces pieces
       (Map_set (Map_set createEmptyBoard wkSq \<lparr>ptype = ''k'', color = ''w''\<rparr>)
          bkSq \<lparr>ptype = ''k'', color = ''b''\<rparr>) available rnd k = Inr (Some b, j)"
    by blast
  have "countKings b c \<le> countKings
      (Map_set (Map_set createEmptyBoard wkSq \<lparr>ptype = ''k'', color = ''w''\<rparr>)
          bkSq \<lparr>ptype = ''k'', color = ''b''\<rparr>) c"
    using pl assms(2) by (rule placePieces_kings)
  also have "\<dots> \<le> 1"
    using countKings_update [of bkSq "\<lparr>ptype = ''k'', color = ''b''\<rparr>"
        "AList.update wkSq \<lparr>ptype = ''k'', color = ''w''\<rparr> []" c]
      countKings_update [of wkSq "\<lparr>ptype = ''k'', color = ''w''\<rparr>" "[]" c]
    by (auto simp: Map_set_def createEmptyBoard_def isKingOf_def split: if_splits)
  finally show ?thesis .
qed

lemma attempt_distinct:
  assumes "attempt cfg pieces turn False rnd i = Inr (Some b, j)"
  shows "distinct (map fst b)"
proof -
  from attempt_placed [OF assms(1)] obtain wkSq bkSq available k where
    pl: "placePieces pieces
       (Map_set (Map_set createEmptyBoard wkSq \<lparr>ptype = ''k'', color = ''w''\<rparr>)
          bkSq \<lparr>ptype = ''k'', color = ''b''\<rparr>) available rnd k = Inr (Some b, j)"
    by blast
  have "distinct (map fst
      (Map_set (Map_set createEmptyBoard wkSq \<lparr>ptype = ''k'', color = ''w''\<rparr>)
          bkSq \<lparr>ptype = ''k'', color = ''b''\<rparr>))"
    by (simp add: Map_set_def createEmptyBoard_def distinct_update)
  with pl show ?thesis by (rule placePieces_distinct)
qed

lemma single_kings_apart:
  assumes sep: "kingsAreSeparated cfg b"
    and w1: "countKings b ''w'' \<le> 1" and b1: "countKings b ''b'' \<le> 1"
    and w: "(wk, pw) \<in> set b" "ptype pw = ''k''" "color pw = ''w''"
    and bl: "(bk, pb) \<in> set b" "ptype pb = ''k''" "color pb = ''b''"
  shows "\<not> squaresAreAdjacent cfg wk bk"
proof -
  from kingsAreSeparated_explicit [OF sep] obtain wk' bk' pw' pb' where
    w': "(wk', pw') \<in> set b" "ptype pw' = ''k''" "color pw' = ''w''"
    and b': "(bk', pb') \<in> set b" "ptype pb' = ''k''" "color pb' = ''b''"
    and adj: "\<not> squaresAreAdjacent cfg wk' bk'"
    by blast
  from w1 w have "firstKing b ''w'' = Some wk" by (rule firstKing_unique)
  moreover from w1 w' have "firstKing b ''w'' = Some wk'" by (rule firstKing_unique)
  ultimately have "wk' = wk" by simp
  from b1 bl have "firstKing b ''b'' = Some bk" by (rule firstKing_unique)
  moreover from b1 b' have "firstKing b ''b'' = Some bk'" by (rule firstKing_unique)
  ultimately have "bk' = bk" by simp
  with adj \<open>wk' = wk\<close> show ?thesis by simp
qed

lemma kings_present:
  assumes "kingsAreSeparated cfg b"
  shows "0 < countKings b ''w'' \<and> 0 < countKings b ''b''"
proof -
  from kingsAreSeparated_explicit [OF assms] have "hasKing b ''w''" and "hasKing b ''b''"
    by (auto simp: hasKing_def list_ex_iff)
  then show ?thesis by (simp add: countKings_pos)
qed

text \<open>
  C5, as stated, fails: the side to move is \<open>normalizeColor(options.turn) || "w"\<close>, any
  text, and the check tests are made for that text and its \<open>oppositeColor\<close> only. With
  \<open>turn: "Red"\<close>, one white rook and every random number 0, the first pass returns white
  king A1, black king C1, white rook B1, with the check-allowed flag unset: black is in
  check.
\<close>

theorem generated_position_in_check:
  "generateStartingPosition initialConfig [\<lparr>ptype = ''rook'', color = ''w''\<rparr>] ''Red'' 1 False
      (\<lambda>i. 0)
    = Inr ([(''A1'', \<lparr>ptype = ''k'', color = ''w''\<rparr>), (''C1'', \<lparr>ptype = ''k'', color = ''b''\<rparr>),
            (''B1'', \<lparr>ptype = ''r'', color = ''w''\<rparr>)], ''red'')
   \<and> isCheck initialConfig ''b''
        [(''A1'', \<lparr>ptype = ''k'', color = ''w''\<rparr>), (''C1'', \<lparr>ptype = ''k'', color = ''b''\<rparr>),
         (''B1'', \<lparr>ptype = ''r'', color = ''w''\<rparr>)] = Inr True"
  by code_simp

text \<open>
  C5, amended. With the check-allowed flag unset, a board returned by the generator that
  is not the empty board has distinct keys, a white and a black king that are not
  adjacent (\<open>kingsAreSeparated\<close>), and neither colour is checkmated; the returned side to
  move is the requested one, and neither it nor its \<open>oppositeColor\<close> is in check. If the
  side to move is white or black, neither white nor black is in check. If the piece list
  holds no king, the board has exactly one king of each colour, so no white king is
  adjacent to a black king.
\<close>

theorem generated_position_valid:
  assumes "generateStartingPosition cfg pieces optTurn maxAttempts False rnd = Inr (board, turn)"
    and "board \<noteq> createEmptyBoard"
  shows "turn = requestedTurn optTurn
     \<and> kingsAreSeparated cfg board
     \<and> (\<exists>wk bk pw pb. (wk, pw) \<in> set board \<and> ptype pw = ''k'' \<and> color pw = ''w''
           \<and> (bk, pb) \<in> set board \<and> ptype pb = ''k'' \<and> color pb = ''b''
           \<and> \<not> squaresAreAdjacent cfg wk bk)
     \<and> distinct (map fst board)
     \<and> (list_all (\<lambda>up. normalizePieceType (ptype up) \<noteq> ''k'') pieces \<longrightarrow>
           countKings board ''w'' = 1 \<and> countKings board ''b'' = 1
           \<and> (\<forall>wk bk pw pb. (wk, pw) \<in> set board \<and> ptype pw = ''k'' \<and> color pw = ''w''
                 \<and> (bk, pb) \<in> set board \<and> ptype pb = ''k'' \<and> color pb = ''b''
                 \<longrightarrow> \<not> squaresAreAdjacent cfg wk bk))
     \<and> isCheck cfg turn board = Inr False
     \<and> isCheck cfg (oppositeColor turn) board = Inr False
     \<and> (turn = ''w'' \<or> turn = ''b'' \<longrightarrow>
           isCheck cfg ''w'' board = Inr False \<and> isCheck cfg ''b'' board = Inr False)
     \<and> isCheckmate cfg ''w'' board = Inr False \<and> isCheckmate cfg ''b'' board = Inr False"
proof -
  from assms(1) have turn: "turn = requestedTurn optTurn"
    and run: "attempts cfg pieces turn False rnd maxAttempts 0 = Inr board"
    by (auto simp: generateStartingPosition_def Let_def andThen_eq_Inr)
  from attempts_result [OF run] assms(2) obtain k j where
    att: "attempt cfg pieces turn False rnd k = Inr (Some board, j)" by blast
  from attempt_success [OF att]
  have ok: "kingsAreSeparated cfg board" "isCheck cfg turn board = Inr False"
    "isCheck cfg (oppositeColor turn) board = Inr False"
    "isCheckmate cfg ''w'' board = Inr False" "isCheckmate cfg ''b'' board = Inr False"
    by simp_all
  have both: "turn = ''w'' \<or> turn = ''b'' \<longrightarrow>
      isCheck cfg ''w'' board = Inr False \<and> isCheck cfg ''b'' board = Inr False"
    using ok(2,3) by (auto simp: oppositeColor_literals)
  have keys: "distinct (map fst board)"
    using att by (rule attempt_distinct)
  have kings: "list_all (\<lambda>up. normalizePieceType (ptype up) \<noteq> ''k'') pieces \<longrightarrow>
      countKings board ''w'' = 1 \<and> countKings board ''b'' = 1
      \<and> (\<forall>wk bk pw pb. (wk, pw) \<in> set board \<and> ptype pw = ''k'' \<and> color pw = ''w''
            \<and> (bk, pb) \<in> set board \<and> ptype pb = ''k'' \<and> color pb = ''b''
            \<longrightarrow> \<not> squaresAreAdjacent cfg wk bk)"
  proof
    assume free: "list_all (\<lambda>up. normalizePieceType (ptype up) \<noteq> ''k'') pieces"
    have w1: "countKings board ''w'' \<le> 1" and b1: "countKings board ''b'' \<le> 1"
      using att free by (rule attempt_kings)+
    from kings_present [OF ok(1)] w1 b1
    have one: "countKings board ''w'' = 1 \<and> countKings board ''b'' = 1"
      by simp
    have "\<forall>wk bk pw pb. (wk, pw) \<in> set board \<and> ptype pw = ''k'' \<and> color pw = ''w''
            \<and> (bk, pb) \<in> set board \<and> ptype pb = ''k'' \<and> color pb = ''b''
            \<longrightarrow> \<not> squaresAreAdjacent cfg wk bk"
      using single_kings_apart [OF ok(1) w1 b1] by blast
    with one show "countKings board ''w'' = 1 \<and> countKings board ''b'' = 1
      \<and> (\<forall>wk bk pw pb. (wk, pw) \<in> set board \<and> ptype pw = ''k'' \<and> color pw = ''w''
            \<and> (bk, pb) \<in> set board \<and> ptype pb = ''k'' \<and> color pb = ''b''
            \<longrightarrow> \<not> squaresAreAdjacent cfg wk bk)"
      by simp
  qed
  from turn ok kingsAreSeparated_explicit [OF ok(1)] keys kings both show ?thesis
    by (intro conjI)
qed

theorem generated_position_valid_witness:
  "generateStartingPosition initialConfig
     [\<lparr>ptype = ''rook'', color = ''w''\<rparr>, \<lparr>ptype = ''bishop'', color = ''b''\<rparr>] ''w'' 3 False
     (\<lambda>i. 1 / 2)
    = Inr ([(''A3'', \<lparr>ptype = ''k'', color = ''w''\<rparr>), (''D2'', \<lparr>ptype = ''k'', color = ''b''\<rparr>),
            (''B3'', \<lparr>ptype = ''r'', color = ''w''\<rparr>), (''C2'', \<lparr>ptype = ''b'', color = ''b''\<rparr>)],
           ''w'')
   \<and> kingsAreSeparated initialConfig
        [(''A3'', \<lparr>ptype = ''k'', color = ''w''\<rparr>), (''D2'', \<lparr>ptype = ''k'', color = ''b''\<rparr>),
         (''B3'', \<lparr>ptype = ''r'', color = ''w''\<rparr>), (''C2'', \<lparr>ptype = ''b'', color = ''b''\<rparr>)]
   \<and> countKings
        [(''A3'', \<lparr>ptype = ''k'', color = ''w''\<rparr>), (''D2'', \<lparr>ptype = ''k'', color = ''b''\<rparr>),
         (''B3'', \<lparr>ptype = ''r'', color = ''w''\<rparr>), (''C2'', \<lparr>ptype = ''b'', color = ''b''\<rparr>)]
        ''w'' = 1
   \<and> countKings
        [(''A3'', \<lparr>ptype = ''k'', color = ''w''\<rparr>), (''D2'', \<lparr>ptype = ''k'', color = ''b''\<rparr>),
         (''B3'', \<lparr>ptype = ''r'', color = ''w''\<rparr>), (''C2'', \<lparr>ptype = ''b'', color = ''b''\<rparr>)]
        ''b'' = 1
   \<and> isCheck initialConfig ''w''
        [(''A3'', \<lparr>ptype = ''k'', color = ''w''\<rparr>), (''D2'', \<lparr>ptype = ''k'', color = ''b''\<rparr>),
         (''B3'', \<lparr>ptype = ''r'', color = ''w''\<rparr>), (''C2'', \<lparr>ptype = ''b'', color = ''b''\<rparr>)]
       = Inr False
   \<and> isCheck initialConfig ''b''
        [(''A3'', \<lparr>ptype = ''k'', color = ''w''\<rparr>), (''D2'', \<lparr>ptype = ''k'', color = ''b''\<rparr>),
         (''B3'', \<lparr>ptype = ''r'', color = ''w''\<rparr>), (''C2'', \<lparr>ptype = ''b'', color = ''b''\<rparr>)]
       = Inr False
   \<and> isCheckmate initialConfig ''w''
        [(''A3'', \<lparr>ptype = ''k'', color = ''w''\<rparr>), (''D2'', \<lparr>ptype = ''k'', color = ''b''\<rparr>),
         (''B3'', \<lparr>ptype = ''r'', color = ''w''\<rparr>), (''C2'', \<lparr>ptype = ''b'', color = ''b''\<rparr>)]
       = Inr False
   \<and> isCheckmate initialConfig ''b''
        [(''A3'', \<lparr>ptype = ''k'', color = ''w''\<rparr>), (''D2'', \<lparr>ptype = ''k'', color = ''b''\<rparr>),
         (''B3'', \<lparr>ptype = ''r'', color = ''w''\<rparr>), (''C2'', \<lparr>ptype = ''b'', color = ''b''\<rparr>)]
       = Inr False"
proof -
  let ?B = "[(''A3'', \<lparr>ptype = ''k'', color = ''w''\<rparr>), (''D2'', \<lparr>ptype = ''k'', color = ''b''\<rparr>),
            (''B3'', \<lparr>ptype = ''r'', color = ''w''\<rparr>), (''C2'', \<lparr>ptype = ''b'', color = ''b''\<rparr>)]"
  have g: "generateStartingPosition initialConfig
     [\<lparr>ptype = ''rook'', color = ''w''\<rparr>, \<lparr>ptype = ''bishop'', color = ''b''\<rparr>] ''w'' 3 False
     (\<lambda>i. 1 / 2) = Inr (?B, ''w'')"
    by code_simp
  have n: "?B \<noteq> createEmptyBoard"
    by (simp add: createEmptyBoard_def)
  have f: "list_all (\<lambda>up. normalizePieceType (ptype up) \<noteq> ''k'')
      [\<lparr>ptype = ''rook'', color = ''w''\<rparr>, \<lparr>ptype = ''bishop'', color = ''b''\<rparr>]"
    by code_simp
  from generated_position_valid [OF g n] f g show ?thesis
    by simp
qed

section \<open>Applying a move\<close>

lemma length_update_alist:
  "length (AList.update k v al) = (if map_of al k = None then Suc (length al) else length al)"
  by (induction al) auto

lemma length_delete_alist:
  "distinct (map fst al) \<Longrightarrow> map_of al k = Some v \<Longrightarrow>
     Suc (length (AList.delete k al)) = length al"
proof (induction al)
  case Nil
  then show ?case by simp
next
  case (Cons e al)
  obtain k' v' where e: "e = (k', v')" by (cases e)
  show ?case
  proof (cases "k' = k")
    case True
    with Cons.prems(1) e have "k \<notin> fst ` set al" by auto
    then have "AList.delete k al = al" by simp
    with True e show ?thesis by simp
  next
    case False
    with Cons e show ?thesis by auto
  qed
qed

lemma applyMove_value:
  assumes keys: "distinct (map fst b)" and at: "Map_get b from = Some p" and ne: "to \<noteq> from"
  shows "\<exists>nb. applyMove b from to = Some nb
      \<and> length nb = (if Map_get b to = None then length b else length b - 1)
      \<and> Map_get nb from = None \<and> Map_get nb to = Some p
      \<and> (\<forall>sq. sq \<noteq> from \<and> sq \<noteq> to \<longrightarrow> Map_get nb sq = Map_get b sq)
      \<and> distinct (map fst nb)"
proof -
  let ?d = "AList.delete from b"
  let ?nb = "AList.update to p ?d"
  from at have mp: "map_of b from = Some p" by (simp add: Map_get_def)
  then have nb: "applyMove b from to = Some ?nb" by (simp add: applyMove_eq)
  from keys mp have len: "Suc (length ?d) = length b" by (rule length_delete_alist)
  from ne have "map_of ?d to = map_of b to" by simp
  with len have "length ?nb = (if Map_get b to = None then length b else length b - 1)"
    by (auto simp: length_update_alist Map_get_def)
  moreover from ne have "Map_get ?nb from = None"
    by (simp add: Map_get_def update_conv' delete_conv')
  moreover have "Map_get ?nb to = Some p"
    by (simp add: Map_get_def update_conv')
  moreover have "\<forall>sq. sq \<noteq> from \<and> sq \<noteq> to \<longrightarrow> Map_get ?nb sq = Map_get b sq"
    by (simp add: Map_get_def update_conv' delete_conv')
  moreover from keys have "distinct (map fst ?nb)"
    by (intro distinct_update distinct_delete)
  ultimately show ?thesis using nb by blast
qed

lemma copy_piece: "\<lparr>ptype = ptype x, color = color x\<rparr> = x"
  by simp

lemma copyEntries_step:
  "copyEntries h next ((sq, a) # es) =
     copyEntries
       \<lparr>objects = (objects h)(fresh h := objects h a),
        tables = (tables h)(next := AList.update sq (fresh h) (tables h next)),
        fresh = Suc (fresh h)\<rparr> next es"
  by (cases h) (simp add: newObject_def tableSet_def copy_piece)

lemma copyEntries_fresh: "fresh h \<le> fresh (copyEntries h next es)"
proof (induction es arbitrary: h)
  case Nil
  show ?case by simp
next
  case (Cons e es)
  obtain sq a where e: "e = (sq, a)" by (cases e)
  let ?h = "\<lparr>objects = (objects h)(fresh h := objects h a),
        tables = (tables h)(next := AList.update sq (fresh h) (tables h next)),
        fresh = Suc (fresh h)\<rparr>"
  from Cons [of ?h] have "Suc (fresh h) \<le> fresh (copyEntries ?h next es)" by simp
  then show ?case unfolding e copyEntries_step by simp
qed

lemma copyEntries_objects:
  "a' < fresh h \<Longrightarrow> objects (copyEntries h next es) a' = objects h a'"
proof (induction es arbitrary: h)
  case Nil
  show ?case by simp
next
  case (Cons e es)
  obtain sq a where e: "e = (sq, a)" by (cases e)
  let ?h = "\<lparr>objects = (objects h)(fresh h := objects h a),
        tables = (tables h)(next := AList.update sq (fresh h) (tables h next)),
        fresh = Suc (fresh h)\<rparr>"
  from Cons.prems have "a' < fresh ?h" by simp
  from Cons.IH [OF this] Cons.prems show ?case unfolding e copyEntries_step by simp
qed

lemma copyEntries_tables:
  "m \<noteq> next \<Longrightarrow> tables (copyEntries h next es) m = tables h m"
proof (induction es arbitrary: h)
  case Nil
  show ?case by simp
next
  case (Cons e es)
  obtain sq a where e: "e = (sq, a)" by (cases e)
  let ?h = "\<lparr>objects = (objects h)(fresh h := objects h a),
        tables = (tables h)(next := AList.update sq (fresh h) (tables h next)),
        fresh = Suc (fresh h)\<rparr>"
  from Cons.IH [OF Cons.prems, of ?h] Cons.prems show ?case
    unfolding e copyEntries_step by simp
qed

lemma copyEntries_refs:
  "snd ` set (tables (copyEntries h next es) next)
     \<subseteq> snd ` set (tables h next) \<union> {a'. fresh h \<le> a'}"
proof (induction es arbitrary: h)
  case Nil
  show ?case by simp
next
  case (Cons e es)
  obtain sq a where e: "e = (sq, a)" by (cases e)
  let ?h = "\<lparr>objects = (objects h)(fresh h := objects h a),
        tables = (tables h)(next := AList.update sq (fresh h) (tables h next)),
        fresh = Suc (fresh h)\<rparr>"
  have ih: "snd ` set (tables (copyEntries ?h next es) next)
      \<subseteq> snd ` set (tables ?h next) \<union> {a'. fresh ?h \<le> a'}"
    by (rule Cons.IH)
  have upd: "snd ` set (tables ?h next) \<subseteq> insert (fresh h) (snd ` set (tables h next))"
    using set_update_subset [of sq "fresh h" "tables h next"] by auto
  have "snd ` set (tables (copyEntries ?h next es) next)
      \<subseteq> snd ` set (tables h next) \<union> {a'. fresh h \<le> a'}"
  proof
    fix x assume "x \<in> snd ` set (tables (copyEntries ?h next es) next)"
    with ih have "x \<in> snd ` set (tables ?h next) \<or> fresh ?h \<le> x" by blast
    then show "x \<in> snd ` set (tables h next) \<union> {a'. fresh h \<le> a'}"
    proof
      assume "x \<in> snd ` set (tables ?h next)"
      with upd have "x = fresh h \<or> x \<in> snd ` set (tables h next)" by blast
      then show ?thesis by auto
    next
      assume "fresh ?h \<le> x"
      then show ?thesis by simp
    qed
  qed
  then show ?case
    unfolding e copyEntries_step .
qed

lemma update_new_key: "k \<notin> fst ` set al \<Longrightarrow> AList.update k v al = al @ [(k, v)]"
  by (induction al) auto

lemma piecesAt_append: "piecesAt h (xs @ ys) = piecesAt h xs @ piecesAt h ys"
  by (simp add: piecesAt_def)

lemma piecesAt_same:
  "(\<And>a. a \<in> snd ` set es \<Longrightarrow> objects h' a = objects h a) \<Longrightarrow> piecesAt h' es = piecesAt h es"
  by (induction es) (auto simp: piecesAt_def)

lemma copyEntries_board:
  "distinct (map fst es) \<Longrightarrow> fst ` set es \<inter> fst ` set (tables h next) = {} \<Longrightarrow>
   (\<And>a. a \<in> snd ` set es \<Longrightarrow> a < fresh h) \<Longrightarrow>
   (\<And>a. a \<in> snd ` set (tables h next) \<Longrightarrow> a < fresh h) \<Longrightarrow>
     piecesAt (copyEntries h next es) (tables (copyEntries h next es) next)
       = piecesAt h (tables h next) @ piecesAt h es"
proof (induction es arbitrary: h)
  case Nil
  show ?case by (simp add: piecesAt_def)
next
  case (Cons e es)
  obtain sq a where e: "e = (sq, a)" by (cases e)
  let ?h = "\<lparr>objects = (objects h)(fresh h := objects h a),
        tables = (tables h)(next := AList.update sq (fresh h) (tables h next)),
        fresh = Suc (fresh h)\<rparr>"
  from Cons.prems(2) e have new: "sq \<notin> fst ` set (tables h next)" by auto
  then have tab: "tables ?h next = tables h next @ [(sq, fresh h)]"
    by (simp add: update_new_key)
  have d: "distinct (map fst es)" using Cons.prems(1) by simp
  have disj: "fst ` set es \<inter> fst ` set (tables ?h next) = {}"
    using Cons.prems(1,2) e unfolding tab by auto
  have old_es: "a' < fresh h" if "a' \<in> snd ` set es" for a'
  proof -
    from that have "a' \<in> snd ` set (e # es)" by auto
    then show ?thesis by (rule Cons.prems(3))
  qed
  have r1: "a' < fresh ?h" if "a' \<in> snd ` set es" for a'
    using old_es [OF that] by simp
  have r2: "a' < fresh ?h" if "a' \<in> snd ` set (tables ?h next)" for a'
  proof -
    from that have "a' = fresh h \<or> a' \<in> snd ` set (tables h next)"
      unfolding tab by auto
    then show ?thesis
    proof
      assume "a' = fresh h"
      then show ?thesis by simp
    next
      assume "a' \<in> snd ` set (tables h next)"
      then have "a' < fresh h" by (rule Cons.prems(4))
      then show ?thesis by simp
    qed
  qed
  have old: "objects ?h a' = objects h a'" if "a' < fresh h" for a'
    using that by simp
  have "piecesAt (copyEntries ?h next es) (tables (copyEntries ?h next es) next)
      = piecesAt ?h (tables ?h next) @ piecesAt ?h es"
    using d disj r1 r2 by (rule Cons.IH)
  also have "piecesAt ?h es = piecesAt h es"
    by (rule piecesAt_same, rule old, rule old_es)
  also have "piecesAt ?h (tables ?h next) = piecesAt ?h (tables h next) @ [(sq, objects h a)]"
    unfolding tab piecesAt_append by (simp add: piecesAt_def)
  also have "piecesAt ?h (tables h next) = piecesAt h (tables h next)"
    by (rule piecesAt_same, rule old, rule Cons.prems(4))
  finally have calc:
    "piecesAt (copyEntries ?h next es) (tables (copyEntries ?h next es) next)
      = (piecesAt h (tables h next) @ [(sq, objects h a)]) @ piecesAt h es" .
  have cons: "piecesAt h ((sq, a) # es) = (sq, objects h a) # piecesAt h es"
    by (simp add: piecesAt_def)
  show ?case
    unfolding e copyEntries_step calc cons by (simp only: append_assoc append_Cons append_Nil)
qed

lemma map_of_piecesAt: "map_of (piecesAt h es) k = map_option (objects h) (map_of es k)"
  by (induction es) (auto simp: piecesAt_def)

lemma keys_piecesAt: "map fst (piecesAt h es) = map fst es"
  by (induction es) (auto simp: piecesAt_def)

lemma piecesAt_update:
  "piecesAt h (AList.update k a es) = AList.update k (objects h a) (piecesAt h es)"
  by (induction es) (auto simp: piecesAt_def)

lemma piecesAt_delete: "piecesAt h (AList.delete k es) = AList.delete k (piecesAt h es)"
  by (induction es) (auto simp: piecesAt_def)

lemma allocated_refs: "allocated h m \<Longrightarrow> a \<in> snd ` set (tables h m) \<Longrightarrow> a < fresh h"
  by (auto simp: allocated_def list_all_iff)

lemma cloneBoardInStore_spec:
  assumes al: "allocated h board" and keys: "distinct (map fst (tables h board))"
  shows "\<exists>h1. cloneBoardInStore h board = (h1, fresh h)
     \<and> boardOf h1 (fresh h) = boardOf h board
     \<and> (\<forall>a < fresh h. objects h1 a = objects h a \<and> tables h1 a = tables h a)
     \<and> snd ` set (tables h1 (fresh h)) \<subseteq> {a. fresh h < a}"
proof -
  let ?n = "fresh h"
  let ?h0 = "h\<lparr>tables := (tables h)(?n := []), fresh := Suc ?n\<rparr>"
  let ?h1 = "copyEntries ?h0 ?n (tables h board)"
  have clone: "cloneBoardInStore h board = (?h1, ?n)"
    by (simp add: cloneBoardInStore_def newMap_def)
  have empty: "tables ?h0 ?n = []" by simp
  have disj: "fst ` set (tables h board) \<inter> fst ` set (tables ?h0 ?n) = {}"
    unfolding empty by simp
  have r1: "a < fresh ?h0" if "a \<in> snd ` set (tables h board)" for a
    using allocated_refs [OF al that] by simp
  have r2: "a < fresh ?h0" if "a \<in> snd ` set (tables ?h0 ?n)" for a
    using that unfolding empty by simp
  have "piecesAt ?h1 (tables ?h1 ?n) = piecesAt ?h0 (tables ?h0 ?n) @ piecesAt ?h0 (tables h board)"
    using keys disj r1 r2 by (rule copyEntries_board)
  also have "\<dots> = piecesAt ?h0 (tables h board)"
    unfolding empty by (simp add: piecesAt_def)
  also have "\<dots> = piecesAt h (tables h board)"
    by (simp add: piecesAt_def)
  finally have board: "boardOf ?h1 ?n = boardOf h board"
    by (simp add: boardOf_def)
  have frame: "\<forall>a < ?n. objects ?h1 a = objects h a \<and> tables ?h1 a = tables h a"
  proof (intro allI impI conjI)
    fix a assume a: "a < ?n"
    then have "a < fresh ?h0" by simp
    then have "objects ?h1 a = objects ?h0 a" by (rule copyEntries_objects)
    then show "objects ?h1 a = objects h a" by simp
    from a have "a \<noteq> ?n" by simp
    then have "tables ?h1 a = tables ?h0 a" by (rule copyEntries_tables)
    with a show "tables ?h1 a = tables h a" by simp
  qed
  have "snd ` set (tables ?h1 ?n) \<subseteq> snd ` set (tables ?h0 ?n) \<union> {a'. fresh ?h0 \<le> a'}"
    by (rule copyEntries_refs)
  then have refs: "snd ` set (tables ?h1 ?n) \<subseteq> {a. ?n < a}"
    unfolding empty by auto
  from clone board frame refs show ?thesis by blast
qed

lemma applyMoveInStore_spec:
  assumes al: "allocated h board" and keys: "distinct (map fst (boardOf h board))"
    and nb: "applyMove (boardOf h board) from to = Some nb"
  shows "\<exists>h'. applyMoveInStore h board from to = Some (h', fresh h)
     \<and> boardOf h' (fresh h) = nb
     \<and> boardOf h' board = boardOf h board
     \<and> (\<forall>a < fresh h. objects h' a = objects h a \<and> tables h' a = tables h a)
     \<and> list_all (\<lambda>(sq, a). fresh h < a) (tables h' (fresh h))"
proof -
  let ?n = "fresh h"
  from keys have keys': "distinct (map fst (tables h board))"
    by (simp add: boardOf_def keys_piecesAt)
  from cloneBoardInStore_spec [OF al keys'] obtain h1 where
    clone: "cloneBoardInStore h board = (h1, ?n)"
    and board: "boardOf h1 ?n = boardOf h board"
    and frame: "\<forall>a < ?n. objects h1 a = objects h a \<and> tables h1 a = tables h a"
    and refs: "snd ` set (tables h1 ?n) \<subseteq> {a. ?n < a}"
    by blast
  from nb obtain p where p: "map_of (boardOf h board) from = Some p"
    and nb': "nb = AList.update to p (AList.delete from (boardOf h board))"
    by (auto simp: applyMove_eq split: option.splits)
  from p board have "map_of (boardOf h1 ?n) from = Some p"
    by simp
  then have "map_option (objects h1) (map_of (tables h1 ?n) from) = Some p"
    by (simp only: boardOf_def map_of_piecesAt)
  then obtain a where a: "map_of (tables h1 ?n) from = Some a" and pa: "objects h1 a = p"
    by auto
  let ?h' = "tableSet (tableDelete h1 ?n from) ?n to a"
  have tab: "tables ?h' ?n = AList.update to a (AList.delete from (tables h1 ?n))"
    by (simp add: tableSet_def tableDelete_def)
  have obj: "objects ?h' = objects h1"
    by (simp add: tableSet_def tableDelete_def)
  have other: "tables ?h' m = tables h1 m" if "m \<noteq> ?n" for m
    using that by (simp add: tableSet_def tableDelete_def)
  from clone a have run: "applyMoveInStore h board from to = Some (?h', ?n)"
    by (simp add: applyMoveInStore_def)
  have same: "piecesAt ?h' es = piecesAt h1 es" for es
    by (simp add: piecesAt_def obj)
  have "boardOf ?h' ?n = AList.update to p (AList.delete from (piecesAt h1 (tables h1 ?n)))"
    unfolding boardOf_def tab piecesAt_update piecesAt_delete same obj pa ..
  with board nb' have result: "boardOf ?h' ?n = nb"
    by (simp add: boardOf_def)
  have frame': "\<forall>a' < ?n. objects ?h' a' = objects h a' \<and> tables ?h' a' = tables h a'"
    using frame other obj by auto
  from al have bn: "board < ?n" by (simp add: allocated_def)
  have "boardOf ?h' board = piecesAt h1 (tables h board)"
    unfolding boardOf_def same using frame' bn by simp
  also have "\<dots> = piecesAt h (tables h board)"
    by (rule piecesAt_same) (use frame allocated_refs [OF al] in blast)
  finally have input: "boardOf ?h' board = boardOf h board"
    by (simp add: boardOf_def)
  have "snd ` set (tables ?h' ?n) \<subseteq> {a'. ?n < a'}"
  proof
    fix x assume "x \<in> snd ` set (tables ?h' ?n)"
    then obtain k where "(k, x) \<in> set (AList.update to a (AList.delete from (tables h1 ?n)))"
      unfolding tab by auto
    with set_update_subset [of to a "AList.delete from (tables h1 ?n)"]
    have "(k, x) = (to, a) \<or> (k, x) \<in> set (AList.delete from (tables h1 ?n))" by auto
    with set_delete_subset [of "from" "tables h1 ?n"]
    have "x = a \<or> (k, x) \<in> set (tables h1 ?n)" by auto
    moreover from a have "(from, a) \<in> set (tables h1 ?n)" by (rule map_of_SomeD)
    ultimately have "x \<in> snd ` set (tables h1 ?n)" by force
    with refs show "x \<in> {a'. ?n < a'}" by blast
  qed
  then have new: "list_all (\<lambda>(sq, a). ?n < a) (tables ?h' ?n)"
    by (auto simp: list_all_iff)
  from run result input frame' new show ?thesis by blast
qed

text \<open>
  C7. For a board (a \<open>Map\<close>: distinct keys) with a piece on \<open>from\<close>, and \<open>to\<close> another
  square: \<open>applyMove\<close> returns a board with one entry less if \<open>to\<close> was occupied and
  as many entries otherwise, \<open>from\<close> is empty in it, \<open>to\<close> holds the moved piece, and
  every other square is as before. In a store, the result is a new \<open>Map\<close> whose piece
  objects are all new, every object that existed before the call is unchanged, and the
  input \<open>Map\<close> still stands for the same board.
\<close>

theorem applyMove_moves_one_piece:
  assumes keys: "distinct (map fst b)" and at: "Map_get b from = Some p" and ne: "to \<noteq> from"
  shows "\<exists>nb. applyMove b from to = Some nb
      \<and> length nb = (if Map_get b to = None then length b else length b - 1)
      \<and> Map_get nb from = None \<and> Map_get nb to = Some p
      \<and> (\<forall>sq. sq \<noteq> from \<and> sq \<noteq> to \<longrightarrow> Map_get nb sq = Map_get b sq)
      \<and> (\<forall>h board. allocated h board \<and> boardOf h board = b \<longrightarrow>
            (\<exists>h'. applyMoveInStore h board from to = Some (h', fresh h)
               \<and> boardOf h' (fresh h) = nb
               \<and> boardOf h' board = b
               \<and> (\<forall>a < fresh h. objects h' a = objects h a \<and> tables h' a = tables h a)
               \<and> list_all (\<lambda>(sq, a). fresh h < a) (tables h' (fresh h))))"
proof -
  from applyMove_value [OF keys at ne] obtain nb where
    nb: "applyMove b from to = Some nb"
    and val: "length nb = (if Map_get b to = None then length b else length b - 1)"
      "Map_get nb from = None" "Map_get nb to = Some p"
      "\<forall>sq. sq \<noteq> from \<and> sq \<noteq> to \<longrightarrow> Map_get nb sq = Map_get b sq"
    by blast
  have store: "\<exists>h'. applyMoveInStore h board from to = Some (h', fresh h)
               \<and> boardOf h' (fresh h) = nb
               \<and> boardOf h' board = b
               \<and> (\<forall>a < fresh h. objects h' a = objects h a \<and> tables h' a = tables h a)
               \<and> list_all (\<lambda>(sq, a). fresh h < a) (tables h' (fresh h))"
    if "allocated h board \<and> boardOf h board = b" for h board
  proof -
    from that have al: "allocated h board" and b: "boardOf h board = b" by simp_all
    from keys b have k: "distinct (map fst (boardOf h board))" by simp
    from nb b have n: "applyMove (boardOf h board) from to = Some nb" by simp
    from applyMoveInStore_spec [OF al k n] b show ?thesis by simp
  qed
  from nb val store show ?thesis by blast
qed

theorem applyMove_moves_one_piece_witness:
  "applyMove
     [(''A1'', \<lparr>ptype = ''r'', color = ''w''\<rparr>), (''A3'', \<lparr>ptype = ''b'', color = ''b''\<rparr>),
      (''D1'', \<lparr>ptype = ''k'', color = ''w''\<rparr>), (''D4'', \<lparr>ptype = ''k'', color = ''b''\<rparr>)]
     ''A1'' ''A3''
     = Some [(''A3'', \<lparr>ptype = ''r'', color = ''w''\<rparr>), (''D1'', \<lparr>ptype = ''k'', color = ''w''\<rparr>),
             (''D4'', \<lparr>ptype = ''k'', color = ''b''\<rparr>)]
   \<and> boardOf exampleStore 4 =
       [(''A1'', \<lparr>ptype = ''r'', color = ''w''\<rparr>), (''A3'', \<lparr>ptype = ''b'', color = ''b''\<rparr>),
        (''D1'', \<lparr>ptype = ''k'', color = ''w''\<rparr>), (''D4'', \<lparr>ptype = ''k'', color = ''b''\<rparr>)]
   \<and> (\<exists>h'. applyMoveInStore exampleStore 4 ''A1'' ''A3'' = Some (h', 5)
         \<and> boardOf h' 5 =
             [(''A3'', \<lparr>ptype = ''r'', color = ''w''\<rparr>), (''D1'', \<lparr>ptype = ''k'', color = ''w''\<rparr>),
              (''D4'', \<lparr>ptype = ''k'', color = ''b''\<rparr>)]
         \<and> boardOf h' 4 =
             [(''A1'', \<lparr>ptype = ''r'', color = ''w''\<rparr>), (''A3'', \<lparr>ptype = ''b'', color = ''b''\<rparr>),
              (''D1'', \<lparr>ptype = ''k'', color = ''w''\<rparr>), (''D4'', \<lparr>ptype = ''k'', color = ''b''\<rparr>)]
         \<and> list_all (\<lambda>(sq, a). 5 < a) (tables h' 5))
   \<and> map_option (\<lambda>(h', next). tables h' next) (applyMoveInStore exampleStore 4 ''A1'' ''A3'')
       = Some [(''A3'', 6), (''D1'', 8), (''D4'', 9)]"
proof -
  let ?B = "[(''A1'', \<lparr>ptype = ''r'', color = ''w''\<rparr>), (''A3'', \<lparr>ptype = ''b'', color = ''b''\<rparr>),
      (''D1'', \<lparr>ptype = ''k'', color = ''w''\<rparr>), (''D4'', \<lparr>ptype = ''k'', color = ''b''\<rparr>)]"
  have keys: "distinct (map fst ?B)" by simp
  have at: "Map_get ?B ''A1'' = Some \<lparr>ptype = ''r'', color = ''w''\<rparr>" by code_simp
  have ne: "''A3'' \<noteq> ''A1''" by simp
  have nb: "applyMove ?B ''A1'' ''A3''
     = Some [(''A3'', \<lparr>ptype = ''r'', color = ''w''\<rparr>), (''D1'', \<lparr>ptype = ''k'', color = ''w''\<rparr>),
             (''D4'', \<lparr>ptype = ''k'', color = ''b''\<rparr>)]"
    by code_simp
  have al: "allocated exampleStore 4" by code_simp
  have bo: "boardOf exampleStore 4 = ?B" by code_simp
  have fr: "fresh exampleStore = 5" by code_simp
  have tb: "map_option (\<lambda>(h', next). tables h' next)
      (applyMoveInStore exampleStore 4 ''A1'' ''A3'') = Some [(''A3'', 6), (''D1'', 8), (''D4'', 9)]"
    by code_simp
  from applyMove_moves_one_piece [OF keys at ne] nb obtain
    st: "\<forall>h board. allocated h board \<and> boardOf h board = ?B \<longrightarrow>
            (\<exists>h'. applyMoveInStore h board ''A1'' ''A3'' = Some (h', fresh h)
               \<and> boardOf h' (fresh h) =
                   [(''A3'', \<lparr>ptype = ''r'', color = ''w''\<rparr>),
                    (''D1'', \<lparr>ptype = ''k'', color = ''w''\<rparr>),
                    (''D4'', \<lparr>ptype = ''k'', color = ''b''\<rparr>)]
               \<and> boardOf h' board = ?B
               \<and> (\<forall>a < fresh h. objects h' a = objects h a \<and> tables h' a = tables h a)
               \<and> list_all (\<lambda>(sq, a). fresh h < a) (tables h' (fresh h)))"
    by auto
  from st al bo have "\<exists>h'. applyMoveInStore exampleStore 4 ''A1'' ''A3'' = Some (h', fresh exampleStore)
               \<and> boardOf h' (fresh exampleStore) =
                   [(''A3'', \<lparr>ptype = ''r'', color = ''w''\<rparr>),
                    (''D1'', \<lparr>ptype = ''k'', color = ''w''\<rparr>),
                    (''D4'', \<lparr>ptype = ''k'', color = ''b''\<rparr>)]
               \<and> boardOf h' 4 = ?B
               \<and> list_all (\<lambda>(sq, a). fresh exampleStore < a) (tables h' (fresh exampleStore))"
    by blast
  with nb bo tb show ?thesis
    unfolding fr by blast
qed

end
